theory Spec2Isabelle
  imports Main
begin

section \<open>Documents, slots and errors\<close>

text \<open>
  The fragment handed to \<^verbatim>\<open>lambda_handler.handler\<close> is a parsed JSON document: a
  \<^verbatim>\<open>dict\<close> (insertion ordered, string keys), a \<^verbatim>\<open>list\<close>, or an atomic value.
  A \<^verbatim>\<open>dict\<close> is an association list in insertion order; its keys are pairwise
  distinct in every document that comes from JSON. A \<^verbatim>\<open>float\<close> is carried by the
  text Python's \<^verbatim>\<open>str\<close> gives for it: the program never computes with one.
\<close>

datatype json =
    Mapping "(string \<times> json) list"
  | Sequence "json list"
  | Str string
  | Num int
  | Flt string
  | Bool bool
  | Null

text \<open>
  The pair \<^verbatim>\<open>(parent, key)\<close> that \<^verbatim>\<open>process_fragment\<close> and every registered
  function receive. The source has three call sites: line 20 passes
  \<^verbatim>\<open>parent=None, key=None\<close>, lines 55-57 pass a \<^verbatim>\<open>dict\<close> and one of its keys,
  line 85 passes a \<^verbatim>\<open>list\<close> and an index from \<^verbatim>\<open>enumerate\<close>.
\<close>

datatype slot =
    Root
  | Entry "(string \<times> json) list" string
  | Elem "json list" nat

text \<open>The exceptions the program raises, with what tells their messages apart.\<close>

datatype reason =
    MaxRecursionOnMapping
  | OnlyElement string
  | UnknownFunction string
  | ForEachUsage json
  | SpliceInto string
  | NotEnoughFormatArguments
  | NoItemAssignment
  | IndexOutOfRange
  | MissingKey string

datatype error =
    RecursionError reason
  | ValueError reason
  | TypeError reason
  | IndexError reason
  | KeyError reason

text \<open>
  A call either does not return (\<open>None\<close>: the model ran out of fuel, or a loop ran
  forever) or returns the state it left behind together with the exception it raised,
  if any. The state is kept on failure too: the program mutates the document in place
  and \<^verbatim>\<open>handler\<close> returns the fragment whatever the status.
\<close>

type_synonym 'a outcome = "('a \<times> error option) option"

definition MAX_RECURSION :: nat where
  "MAX_RECURSION = 16"

subsection \<open>Dictionaries and item assignment\<close>

text \<open>\<^verbatim>\<open>d[k] = v\<close> on a \<^verbatim>\<open>dict\<close>: an existing key keeps its position, a new key goes last.\<close>

fun dict_set :: "string \<Rightarrow> json \<Rightarrow> (string \<times> json) list \<Rightarrow> (string \<times> json) list" where
  "dict_set k v [] = [(k, v)]"
| "dict_set k v ((k', x) # kvs) =
     (if k' = k then (k, v) # kvs else (k', x) # dict_set k v kvs)"

text \<open>A \<^verbatim>\<open>dict\<close> built by inserting pairs one after the other (a dict comprehension).\<close>

definition dict_of_items :: "(string \<times> json) list \<Rightarrow> (string \<times> json) list" where
  "dict_of_items kvs = fold (\<lambda>(k, v) d. dict_set k v d) kvs []"

text \<open>\<^verbatim>\<open>parent[key] = v\<close>. On \<^verbatim>\<open>None\<close> Python raises \<^verbatim>\<open>TypeError\<close>.\<close>

fun setitem :: "slot \<Rightarrow> json \<Rightarrow> slot \<times> error option" where
  "setitem Root v = (Root, Some (TypeError NoItemAssignment))"
| "setitem (Entry kvs k) v = (Entry (dict_set k v kvs) k, None)"
| "setitem (Elem xs i) v =
     (if i < length xs then (Elem (xs[i := v]) i, None)
      else (Elem xs i, Some (IndexError IndexOutOfRange)))"

text \<open>
  \<^verbatim>\<open>process_fragment\<close> is called with \<^verbatim>\<open>fragment\<close> being the object stored at
  \<^verbatim>\<open>parent[key]\<close>, and mutates that object in place. In a model that passes values,
  the parent has to be told what its child has become: \<open>in_place\<close> does that, and nothing
  else.
\<close>

fun in_place :: "slot \<Rightarrow> json \<Rightarrow> slot" where
  "in_place Root v = Root"
| "in_place (Entry kvs k) v = Entry (map (\<lambda>(k', x). if k' = k then (k', v) else (k', x)) kvs) k"
| "in_place (Elem xs i) v = Elem (xs[i := v]) i"

text \<open>
  The container a callee left behind, read back by the caller that owns it. A callee
  returns the kind of slot it was given, so the second equations only make the
  functions total.
\<close>

fun slot_entries :: "slot \<Rightarrow> (string \<times> json) list \<Rightarrow> (string \<times> json) list" where
  "slot_entries (Entry kvs k) d = kvs"
| "slot_entries s d = d"

fun slot_items :: "slot \<Rightarrow> json list \<Rightarrow> json list" where
  "slot_items (Elem xs i) d = xs"
| "slot_items s d = d"

section \<open>String interpolation\<close>

text \<open>
  \<^verbatim>\<open>string.Template(body).safe_substitute(mapping)\<close> of the Python standard
  library, with the default delimiter and identifier pattern
  \<^verbatim>\<open>(?a:[_a-z][_a-z0-9]*)\<close> under \<^verbatim>\<open>re.IGNORECASE\<close>. The regular expression is
  scanned from left to right: after a \<^verbatim>\<open>$\<close> it tries \<^verbatim>\<open>$\<close> (escape), then the longest
  identifier, then a braced identifier, and otherwise leaves the \<^verbatim>\<open>$\<close> alone. A name
  that \<^verbatim>\<open>mapping\<close> lacks leaves the whole placeholder as it is.
\<close>

definition is_id_start :: "char \<Rightarrow> bool" where
  "is_id_start c = (c \<in> set ''_abcdefghijklmnopqrstuvwxyzABCDEFGHIJKLMNOPQRSTUVWXYZ'')"

definition is_id_char :: "char \<Rightarrow> bool" where
  "is_id_char c = (is_id_start c \<or> c \<in> set ''0123456789'')"

function safe_substitute :: "(string \<rightharpoonup> string) \<Rightarrow> string \<Rightarrow> string" where
  "safe_substitute m [] = []"
| "safe_substitute m (c # cs) =
     (if c \<noteq> CHR ''$'' then c # safe_substitute m cs
      else (case cs of
          [] \<Rightarrow> [c]
        | d # ds \<Rightarrow>
            if d = CHR ''$'' then CHR ''$'' # safe_substitute m ds
            else if is_id_start d then
              (let name = takeWhile is_id_char cs; rest = dropWhile is_id_char cs in
               (case m name of
                  Some v \<Rightarrow> v @ safe_substitute m rest
                | None \<Rightarrow> c # name @ safe_substitute m rest))
            else if d = CHR ''{'' \<and> ds \<noteq> [] \<and> is_id_start (hd ds)
                    \<and> dropWhile is_id_char ds \<noteq> []
                    \<and> hd (dropWhile is_id_char ds) = CHR ''}'' then
              (let name = takeWhile is_id_char ds; rest = tl (dropWhile is_id_char ds) in
               (case m name of
                  Some v \<Rightarrow> v @ safe_substitute m rest
                | None \<Rightarrow> c # d # name @ CHR ''}'' # safe_substitute m rest))
            else c # safe_substitute m cs))"
  by pat_completeness auto
termination
  by (relation "measure (\<lambda>(m, s). length s)")
     (auto simp: less_Suc_eq_le le_diff_conv le_SucI length_dropWhile_le)

text \<open>
  \<^verbatim>\<open>json_string_sub(body, mapping)\<close>, lines 203-220. The dict comprehension inserts
  the substituted pairs in order, so two keys that become equal share one entry.
\<close>

fun json_string_sub :: "json \<Rightarrow> (string \<rightharpoonup> string) \<Rightarrow> json" where
  "json_string_sub (Mapping kvs) m =
     Mapping (dict_of_items (map (\<lambda>(k, v). (safe_substitute m k, json_string_sub v m)) kvs))"
| "json_string_sub (Sequence xs) m = Sequence (map (\<lambda>el. json_string_sub el m) xs)"
| "json_string_sub (Str s) m = Str (safe_substitute m s)"
| "json_string_sub v m = v"

section \<open>The registered functions\<close>

subsection \<open>Turing::Splice\<close>

definition type_name :: "json \<Rightarrow> string" where
  "type_name v = (case v of
      Mapping kvs \<Rightarrow> ''dict'' | Sequence xs \<Rightarrow> ''list'' | Str s \<Rightarrow> ''str'' | Num i \<Rightarrow> ''int''
    | Flt s \<Rightarrow> ''float'' | Bool b \<Rightarrow> ''bool'' | Null \<Rightarrow> ''NoneType'')"

text \<open>
  \<^verbatim>\<open>splice(parent, key, fragment)\<close>, lines 90-108. The slice assignment
  \<^verbatim>\<open>parent[key:key+1] = fragment\<close> never raises on a list. In the \<^verbatim>\<open>else\<close> branch
  the message is built with \<^verbatim>\<open>"... %s into %s" % type(fragment).__name__\<close>, one
  argument for two conversions, so the \<^verbatim>\<open>TypeError\<close> that leaves the function is the
  one of the \<^verbatim>\<open>%\<close> operator.
\<close>

fun splice :: "slot \<Rightarrow> json \<Rightarrow> slot outcome" where
  "splice (Elem xs i) (Sequence ys) = Some (Elem (take i xs @ ys @ drop (Suc i) xs) i, None)"
| "splice (Elem xs i) v = Some (Elem xs i, Some (TypeError (SpliceInto (type_name v))))"
| "splice parent v = Some (parent, Some (TypeError NotEnoughFormatArguments))"

subsection \<open>Turing::ForEach\<close>

text \<open>
  \<^verbatim>\<open>str(el)\<close> for the elements of a value list. The text of a \<^verbatim>\<open>dict\<close> or a
  \<^verbatim>\<open>list\<close> is Python's \<^verbatim>\<open>repr\<close>, which is no part of this program: it is the
  parameter \<open>container_str\<close> of everything below.
\<close>

fun str_nat :: "nat \<Rightarrow> string" where
  "str_nat n =
     (if n < 10 then [''0123456789'' ! n]
      else str_nat (n div 10) @ [''0123456789'' ! (n mod 10)])"

definition str_int :: "int \<Rightarrow> string" where
  "str_int i = (if i < 0 then CHR ''-'' # str_nat (nat (- i)) else str_nat (nat i))"

definition py_str :: "(json \<Rightarrow> string) \<Rightarrow> json \<Rightarrow> string" where
  "py_str container_str v = (case v of
      Str s \<Rightarrow> s
    | Num i \<Rightarrow> str_int i
    | Flt s \<Rightarrow> s
    | Bool b \<Rightarrow> (if b then ''True'' else ''False'')
    | Null \<Rightarrow> ''None''
    | _ \<Rightarrow> container_str v)"

text \<open>
  Lines 138-151: the loop that fills \<^verbatim>\<open>var_names\<close> and \<^verbatim>\<open>var_values\<close>; it raises
  at the first ill-formed entry. \<open>fragment\<close> is only there for the message of line 140.
\<close>

fun parse_specs ::
  "(json \<Rightarrow> string) \<Rightarrow> json \<Rightarrow> json list \<Rightarrow> error + (string list \<times> string list list)" where
  "parse_specs container_str fragment [] = Inr ([], [])"
| "parse_specs container_str fragment (iteration_spec # specs) =
     (case iteration_spec of
        Sequence [name, values] \<Rightarrow>
          (case (name, values) of
             (Str n, Sequence vs) \<Rightarrow>
               (case parse_specs container_str fragment specs of
                  Inl e \<Rightarrow> Inl e
                | Inr (var_names, var_values) \<Rightarrow>
                    Inr (n # var_names, map (py_str container_str) vs # var_values))
           | _ \<Rightarrow> Inl (TypeError (ForEachUsage iteration_spec)))
      | Sequence _ \<Rightarrow> Inl (ValueError (ForEachUsage iteration_spec))
      | _ \<Rightarrow> Inl (TypeError (ForEachUsage fragment)))"

text \<open>
  Lines 170-173: the dict comprehension that gives every variable its first value;
  a later entry of the same name overwrites an earlier one.
\<close>

definition starting_values :: "string list \<Rightarrow> string list list \<Rightarrow> (string \<rightharpoonup> string)" where
  "starting_values var_names var_values =
     fold (\<lambda>i cv. cv(var_names ! i \<mapsto> var_values ! i ! 0)) [0..<length var_names] Map.empty"

text \<open>
  Lines 179-195, the inner \<^verbatim>\<open>for i in range(n_variables - 1, -1, -1)\<close>; the counter
  of the model is \<open>i + 1\<close>. \<open>None\<close> is the \<^verbatim>\<open>else\<close> clause of the \<^verbatim>\<open>for\<close>: every
  variable ran out of values. Index 0 of a value list exists because line 155 has
  returned when a list is empty.
\<close>

fun advance ::
  "string list \<Rightarrow> string list list \<Rightarrow> nat \<Rightarrow> nat list \<Rightarrow> (string \<rightharpoonup> string)
     \<Rightarrow> (nat list \<times> (string \<rightharpoonup> string)) option" where
  "advance var_names var_values 0 indexes current_values = None"
| "advance var_names var_values (Suc i) indexes current_values =
     (let new_index = indexes ! i + 1 in
      if new_index < length (var_values ! i) then
        Some (indexes[i := new_index],
              current_values(var_names ! i \<mapsto> var_values ! i ! new_index))
      else
        advance var_names var_values i (indexes[i := 0])
          (current_values(var_names ! i \<mapsto> var_values ! i ! 0)))"

text \<open>Lines 175-195, the \<^verbatim>\<open>while True\<close> loop.\<close>

partial_function (option) for_each_loop ::
  "json \<Rightarrow> string list \<Rightarrow> string list list \<Rightarrow> nat list \<Rightarrow> (string \<rightharpoonup> string)
     \<Rightarrow> json list \<Rightarrow> json list option" where
  "for_each_loop body var_names var_values indexes current_values result =
     (case advance var_names var_values (length var_names) indexes current_values of
        None \<Rightarrow> Some (result @ [json_string_sub body current_values])
      | Some (indexes', current_values') \<Rightarrow>
          for_each_loop body var_names var_values indexes' current_values'
            (result @ [json_string_sub body current_values]))"

declare for_each_loop.simps [code]

text \<open>\<^verbatim>\<open>for_each(parent, key, fragment)\<close>, lines 111-198.\<close>

definition for_each :: "(json \<Rightarrow> string) \<Rightarrow> slot \<Rightarrow> json \<Rightarrow> slot outcome" where
  "for_each container_str parent fragment =
     (case fragment of
        Sequence [iteration_specs, body] \<Rightarrow>
          (case iteration_specs of
             Sequence specs \<Rightarrow>
               (case parse_specs container_str fragment specs of
                  Inl e \<Rightarrow> Some (parent, Some e)
                | Inr (var_names, var_values) \<Rightarrow>
                    if list_ex (\<lambda>values. length values = 0) var_values then
                      Some (setitem parent (Sequence []))
                    else
                      (case for_each_loop body var_names var_values
                              (replicate (length var_names) 0)
                              (starting_values var_names var_values) [] of
                         None \<Rightarrow> None
                       | Some result \<Rightarrow> Some (setitem parent (Sequence result))))
           | _ \<Rightarrow> Some (parent, Some (TypeError (ForEachUsage fragment))))
      | Sequence _ \<Rightarrow> Some (parent, Some (ValueError (ForEachUsage fragment)))
      | _ \<Rightarrow> Some (parent, Some (TypeError (ForEachUsage fragment))))"

text \<open>
  The module-level registry \<^verbatim>\<open>functions\<close>, lines 8, 109, 200 and 201
  (\<open>functions\<close> is a reserved word here, hence the suffix).
\<close>

definition functions_reg :: "(json \<Rightarrow> string) \<Rightarrow> string \<Rightarrow> (slot \<Rightarrow> json \<Rightarrow> slot outcome) option" where
  "functions_reg container_str =
     [''Turing::Splice'' \<mapsto> splice,
      ''Turing::ForEach'' \<mapsto> for_each container_str,
      ''Turing::Foreach'' \<mapsto> for_each container_str]"

section \<open>The walker\<close>

text \<open>\<^verbatim>\<open>key.startswith(prefix)\<close>; every key of a JSON object is a \<^verbatim>\<open>str\<close>.\<close>

definition startswith :: "string \<Rightarrow> string \<Rightarrow> bool" where
  "startswith s p = (take (length p) s = p)"

text \<open>
  Lines 51-57, one pass over the snapshot \<^verbatim>\<open>fragment_keys\<close>. \<open>proc\<close> is the
  recursive call \<^verbatim>\<open>process_fragment(parent=fragment, key=fragment_key, ...)\<close>; what
  it did to \<^verbatim>\<open>fragment\<close> is read back from the slot it returns.
  \<^verbatim>\<open>fragment[fragment_key]\<close> raises \<^verbatim>\<open>KeyError\<close> when the key has gone.
\<close>

fun walk_keys ::
  "(slot \<Rightarrow> json \<Rightarrow> (slot \<times> json) outcome) \<Rightarrow> string list \<Rightarrow> string set
     \<Rightarrow> (string \<times> json) list \<Rightarrow> bool
     \<Rightarrow> ((string \<times> json) list \<times> string set \<times> bool) outcome" where
  "walk_keys proc [] fragment_keys_seen fragment new_fragment_key_seen =
     Some ((fragment, fragment_keys_seen, new_fragment_key_seen), None)"
| "walk_keys proc (fragment_key # fragment_keys) fragment_keys_seen fragment
       new_fragment_key_seen =
     (if fragment_key \<notin> fragment_keys_seen then
        (case map_of fragment fragment_key of
           None \<Rightarrow>
             Some ((fragment, insert fragment_key fragment_keys_seen, True),
                   Some (KeyError (MissingKey fragment_key)))
         | Some child \<Rightarrow>
             (case proc (Entry fragment fragment_key) child of
                None \<Rightarrow> None
              | Some ((parent', child'), Some e) \<Rightarrow>
                  Some ((slot_entries parent' fragment,
                         insert fragment_key fragment_keys_seen, True), Some e)
              | Some ((parent', child'), None) \<Rightarrow>
                  walk_keys proc fragment_keys (insert fragment_key fragment_keys_seen)
                    (slot_entries parent' fragment) True))
      else walk_keys proc fragment_keys fragment_keys_seen fragment new_fragment_key_seen)"

text \<open>
  Lines 45-65, \<^verbatim>\<open>for i in range(MAX_RECURSION)\<close> with its \<^verbatim>\<open>else\<close> clause; the
  counter of the model is the number of passes left.
\<close>

fun resolve_passes ::
  "(slot \<Rightarrow> json \<Rightarrow> (slot \<times> json) outcome) \<Rightarrow> nat \<Rightarrow> string set
     \<Rightarrow> (string \<times> json) list \<Rightarrow> (string \<times> json) list outcome" where
  "resolve_passes proc 0 fragment_keys_seen fragment =
     (if set (map fst fragment) - fragment_keys_seen \<noteq> {}
      then Some (fragment, Some (RecursionError MaxRecursionOnMapping))
      else Some (fragment, None))"
| "resolve_passes proc (Suc passes_left) fragment_keys_seen fragment =
     (case walk_keys proc (map fst fragment) fragment_keys_seen fragment False of
        None \<Rightarrow> None
      | Some ((fragment', seen', new_fragment_key_seen), Some e) \<Rightarrow> Some (fragment', Some e)
      | Some ((fragment', seen', new_fragment_key_seen), None) \<Rightarrow>
          if \<not> new_fragment_key_seen then Some (fragment', None)
          else resolve_passes proc passes_left seen' fragment')"

text \<open>
  Lines 68-81, \<^verbatim>\<open>for key, value in fragment.items()\<close>. \<open>fns\<close> is the registry,
  \<open>n\<close> is \<^verbatim>\<open>len(fragment)\<close>. A registered function gets the parent and
  \<^verbatim>\<open>parent_key\<close> of the mapping, not the mapping.
\<close>

fun call_functions ::
  "(string \<Rightarrow> (slot \<Rightarrow> json \<Rightarrow> slot outcome) option) \<Rightarrow> slot \<Rightarrow> nat
     \<Rightarrow> (string \<times> json) list \<Rightarrow> slot outcome" where
  "call_functions fns parent n [] = Some (parent, None)"
| "call_functions fns parent n ((key, value) # items) =
     (if startswith key ''Turing::'' then
        (if n \<noteq> 1 then Some (parent, Some (ValueError (OnlyElement key)))
         else
           (case fns key of
              None \<Rightarrow> Some (parent, Some (ValueError (UnknownFunction key)))
            | Some function \<Rightarrow>
                (case function parent value of
                   None \<Rightarrow> None
                 | Some (parent', Some e) \<Rightarrow> Some (parent', Some e)
                 | Some (parent', None) \<Rightarrow> call_functions fns parent' n items)))
      else call_functions fns parent n items)"

text \<open>
  Lines 84-85, \<^verbatim>\<open>for i, item in enumerate(fragment)\<close> over the live list: each step
  compares the index with the current length and reads the current element. A splice
  can lengthen the list, so the loop has its own fuel.
\<close>

fun walk_list ::
  "(slot \<Rightarrow> json \<Rightarrow> (slot \<times> json) outcome) \<Rightarrow> nat \<Rightarrow> nat \<Rightarrow> json list
     \<Rightarrow> json list outcome" where
  "walk_list proc 0 i fragment = (if i < length fragment then None else Some (fragment, None))"
| "walk_list proc (Suc fuel) i fragment =
     (if i < length fragment then
        (case proc (Elem fragment i) (fragment ! i) of
           None \<Rightarrow> None
         | Some ((parent', item'), Some e) \<Rightarrow> Some (slot_items parent' fragment, Some e)
         | Some ((parent', item'), None) \<Rightarrow>
             walk_list proc fuel (Suc i) (slot_items parent' fragment))
      else Some (fragment, None))"

text \<open>
  \<^verbatim>\<open>process_fragment(parent, key, fragment)\<close>, lines 32-88. The first argument is
  the global \<^verbatim>\<open>functions\<close>; the second bounds the depth of the recursion and the
  number of steps of each list walk. The result is the parent and the fragment as the
  call leaves them.
\<close>

fun process_fragment ::
  "(string \<Rightarrow> (slot \<Rightarrow> json \<Rightarrow> slot outcome) option) \<Rightarrow> nat \<Rightarrow> slot \<Rightarrow> json
     \<Rightarrow> (slot \<times> json) outcome" where
  "process_fragment fns 0 parent fragment = None"
| "process_fragment fns (Suc fuel) parent fragment =
     (case fragment of
        Mapping kvs \<Rightarrow>
          (case resolve_passes (process_fragment fns fuel) MAX_RECURSION {} kvs of
             None \<Rightarrow> None
           | Some (kvs', Some e) \<Rightarrow> Some ((in_place parent (Mapping kvs'), Mapping kvs'), Some e)
           | Some (kvs', None) \<Rightarrow>
               (case call_functions fns (in_place parent (Mapping kvs')) (length kvs') kvs' of
                  None \<Rightarrow> None
                | Some (parent', e) \<Rightarrow> Some ((parent', Mapping kvs'), e)))
      | Sequence xs \<Rightarrow>
          (case walk_list (process_fragment fns fuel) fuel 0 xs of
             None \<Rightarrow> None
           | Some (xs', e) \<Rightarrow> Some ((in_place parent (Sequence xs'), Sequence xs'), e))
      | _ \<Rightarrow> Some ((parent, fragment), None))"

text \<open>
  \<^verbatim>\<open>handler(event, context)\<close>, lines 10-30, reduced to what it does with the
  fragment: the fragment as resolution left it, and the status.
\<close>

definition handler ::
  "(string \<Rightarrow> (slot \<Rightarrow> json \<Rightarrow> slot outcome) option) \<Rightarrow> nat \<Rightarrow> json \<Rightarrow> (json \<times> string) option" where
  "handler fns fuel fragment =
     (case process_fragment fns fuel Root fragment of
        None \<Rightarrow> None
      | Some ((parent', fragment'), None) \<Rightarrow> Some (fragment', ''success'')
      | Some ((parent', fragment'), Some e) \<Rightarrow> Some (fragment', ''failed''))"

section \<open>Vocabulary of the properties\<close>

text \<open>
  A well-formed entry of \<^verbatim>\<open>iteration_specs\<close>: the two-element list of a variable
  name and its list of values.
\<close>

definition spec_entry :: "string \<times> json list \<Rightarrow> json" where
  "spec_entry nv = Sequence [Str (fst nv), Sequence (snd nv)]"

text \<open>
  A template string, read the way the documentation of \<^verbatim>\<open>string.Template\<close> and
  the specification describe it: literal text without \<^verbatim>\<open>$\<close>, the placeholders
  \<^verbatim>\<open>$name\<close> and \<^verbatim>\<open>${name}\<close>, and the escape \<^verbatim>\<open>$$\<close>. \<open>render\<close> writes a
  piece as it stands in the template, \<open>expand\<close> is what the specification says it
  becomes under a binding.
\<close>

datatype piece = Text string | Named string | Braced string | Escape

definition is_identifier :: "string \<Rightarrow> bool" where
  "is_identifier n = (n \<noteq> [] \<and> is_id_start (hd n) \<and> list_all is_id_char n)"

fun render :: "piece \<Rightarrow> string" where
  "render (Text s) = s"
| "render (Named n) = CHR ''$'' # n"
| "render (Braced n) = CHR ''$'' # CHR ''{'' # n @ ''}''"
| "render Escape = ''$$''"

fun expand :: "(string \<rightharpoonup> string) \<Rightarrow> piece \<Rightarrow> string" where
  "expand b (Text s) = s"
| "expand b (Named n) = (case b n of Some v \<Rightarrow> v | None \<Rightarrow> CHR ''$'' # n)"
| "expand b (Braced n) = (case b n of Some v \<Rightarrow> v | None \<Rightarrow> CHR ''$'' # CHR ''{'' # n @ ''}'')"
| "expand b Escape = ''$''"

text \<open>
  The pieces are the placeholders of the template when every name is an identifier,
  text holds no \<^verbatim>\<open>$\<close>, and what follows \<^verbatim>\<open>$name\<close> does not go on with a letter,
  a digit or an underscore (which would belong to the name).
\<close>

fun well_formed :: "piece list \<Rightarrow> bool" where
  "well_formed [] = True"
| "well_formed (Text s # ps) = (CHR ''$'' \<notin> set s \<and> well_formed ps)"
| "well_formed (Named n # ps) =
     (is_identifier n
      \<and> (case concat (map render ps) of [] \<Rightarrow> True | c # cs \<Rightarrow> \<not> is_id_char c)
      \<and> well_formed ps)"
| "well_formed (Braced n # ps) = (is_identifier n \<and> well_formed ps)"
| "well_formed (Escape # ps) = well_formed ps"

text \<open>
  The successor of an index vector in odometer order, the last position varying
  fastest; the first argument holds the number of values of each variable.
\<close>

fun next_index :: "nat list \<Rightarrow> nat list \<Rightarrow> nat list option" where
  "next_index (l # ls) (d # ds) =
     (case next_index ls ds of
        Some ds' \<Rightarrow> Some (d # ds')
      | None \<Rightarrow> if d + 1 < l then Some (Suc d # replicate (length ds) 0) else None)"
| "next_index ls ds = None"

text \<open>Each element of the list steps to the one after it.\<close>

fun linked :: "('s \<Rightarrow> 's option) \<Rightarrow> 's list \<Rightarrow> bool" where
  "linked f [] = True"
| "linked f [s] = True"
| "linked f (s # t # ss) = (f s = Some t \<and> linked f (t # ss))"

text \<open>All index vectors, in the order of \<open>product_lists\<close>.\<close>

definition all_indexes :: "nat list \<Rightarrow> nat list list" where
  "all_indexes ls = product_lists (map (\<lambda>l. [0..<l]) ls)"

text \<open>The combination an index vector selects, and the binding of a combination.\<close>

definition values_at :: "string list list \<Rightarrow> nat list \<Rightarrow> string list" where
  "values_at var_values indexes = map (\<lambda>(values, i). values ! i) (zip var_values indexes)"

definition binding :: "string list \<Rightarrow> string list \<Rightarrow> (string \<rightharpoonup> string)" where
  "binding var_names combination = map_of (zip var_names combination)"

text \<open>
  Two dicts with the same keys in the same order, and the same values except perhaps
  under the key \<open>k\<close>.
\<close>

definition same_but :: "string \<Rightarrow> (string \<times> json) list \<Rightarrow> (string \<times> json) list \<Rightarrow> bool" where
  "same_but k d d' = list_all2 (\<lambda>e e'. fst e = fst e' \<and> (fst e \<noteq> k \<longrightarrow> snd e = snd e')) d d'"

text \<open>
  The mapping and the set of visited keys after \<open>j\<close> passes of lines 45-60, each of
  which visited a new key and raised nothing; \<open>None\<close> when the loop has ended before.
\<close>

fun after_passes ::
  "(slot \<Rightarrow> json \<Rightarrow> (slot \<times> json) outcome) \<Rightarrow> nat \<Rightarrow> string set \<Rightarrow> (string \<times> json) list
     \<Rightarrow> ((string \<times> json) list \<times> string set) option" where
  "after_passes proc 0 seen d = Some (d, seen)"
| "after_passes proc (Suc j) seen d =
     (case walk_keys proc (map fst d) seen d False of
        Some ((d', seen', True), None) \<Rightarrow> after_passes proc j seen' d'
      | _ \<Rightarrow> None)"

section \<open>Fuel\<close>

text \<open>
  A call that returns with some fuel returns the same with more: the fuel only decides
  whether the model gets to the end of the computation, never what the computation is.
\<close>

lemma walk_keys_more_fuel:
  assumes "\<And>s v r. proc s v = Some r \<Longrightarrow> proc' s v = Some r"
  shows "walk_keys proc ks seen d new = Some r \<Longrightarrow> walk_keys proc' ks seen d new = Some r"
proof (induction ks arbitrary: seen d new)
  case Nil
  then show ?case by simp
next
  case (Cons k ks)
  show ?case
  proof (cases "k \<in> seen \<or> map_of d k = None")
    case True
    with Cons show ?thesis by auto
  next
    case False
    then obtain child where c: "k \<notin> seen" "map_of d k = Some child" by auto
    with Cons.prems obtain p v' e where
      pr: "proc (Entry d k) child = Some ((p, v'), e)"
      by (cases "proc (Entry d k) child") auto
    from assms [OF pr] have pr': "proc' (Entry d k) child = Some ((p, v'), e)" .
    show ?thesis
    proof (cases e)
      case (Some err)
      with Cons.prems c pr pr' show ?thesis by simp
    next
      case None
      with Cons.prems c pr have
        "walk_keys proc ks (insert k seen) (slot_entries p d) True = Some r" by simp
      from Cons.IH [OF this] None c pr' show ?thesis by simp
    qed
  qed
qed

lemma resolve_passes_more_fuel:
  assumes "\<And>s v r. proc s v = Some r \<Longrightarrow> proc' s v = Some r"
  shows "resolve_passes proc n seen d = Some r \<Longrightarrow> resolve_passes proc' n seen d = Some r"
proof (induction n arbitrary: seen d)
  case 0
  then show ?case by simp
next
  case (Suc n)
  from Suc.prems obtain d1 s1 new1 e1 where
    w: "walk_keys proc (map fst d) seen d False = Some ((d1, s1, new1), e1)"
    by (cases "walk_keys proc (map fst d) seen d False") auto
  from walk_keys_more_fuel [of proc proc', OF assms w]
  have w': "walk_keys proc' (map fst d) seen d False = Some ((d1, s1, new1), e1)" .
  show ?case
  proof (cases "e1 = None \<and> new1")
    case True
    with Suc.prems w have "resolve_passes proc n s1 d1 = Some r" by auto
    from Suc.IH [OF this] True w' show ?thesis by auto
  next
    case False
    with Suc.prems w w' show ?thesis by (cases e1) auto
  qed
qed

lemma walk_list_more_fuel:
  assumes "\<And>s v r. proc s v = Some r \<Longrightarrow> proc' s v = Some r"
  shows "walk_list proc steps i xs = Some r \<Longrightarrow> steps \<le> steps' \<Longrightarrow>
     walk_list proc' steps' i xs = Some r"
proof (induction steps arbitrary: steps' i xs)
  case 0
  then have "\<not> i < length xs" and "r = (xs, None)" by (auto split: if_splits)
  then show ?case by (cases steps') simp_all
next
  case (Suc steps)
  from Suc.prems(2) obtain m where m: "steps' = Suc m" "steps \<le> m" by (cases steps') auto
  show ?case
  proof (cases "i < length xs")
    case False
    with Suc.prems(1) m show ?thesis by simp
  next
    case True
    with Suc.prems(1) obtain p v' e where
      pr: "proc (Elem xs i) (xs ! i) = Some ((p, v'), e)"
      by (cases "proc (Elem xs i) (xs ! i)") auto
    from assms [OF pr] have pr': "proc' (Elem xs i) (xs ! i) = Some ((p, v'), e)" .
    show ?thesis
    proof (cases e)
      case (Some err)
      with Suc.prems(1) True pr pr' m show ?thesis by simp
    next
      case None
      with Suc.prems(1) True pr have
        "walk_list proc steps (Suc i) (slot_items p xs) = Some r" by simp
      from Suc.IH [OF this m(2)] None True pr' m show ?thesis by simp
    qed
  qed
qed

lemma process_fragment_more_fuel:
  "process_fragment fns n parent fragment = Some r \<Longrightarrow> n \<le> n' \<Longrightarrow>
     process_fragment fns n' parent fragment = Some r"
proof (induction n arbitrary: n' parent fragment r)
  case 0
  then show ?case by simp
next
  case (Suc n)
  from Suc.prems(2) obtain m where m: "n' = Suc m" "n \<le> m" by (cases n') auto
  have mono: "\<And>s v r. process_fragment fns n s v = Some r \<Longrightarrow> process_fragment fns m s v = Some r"
    using Suc.IH m(2) by blast
  show ?case
  proof (cases fragment)
    case (Mapping kvs)
    with Suc.prems(1) obtain q where
      q: "resolve_passes (process_fragment fns n) MAX_RECURSION {} kvs = Some q"
      by (cases "resolve_passes (process_fragment fns n) MAX_RECURSION {} kvs") auto
    from resolve_passes_more_fuel [of "process_fragment fns n" "process_fragment fns m", OF mono q]
    have "resolve_passes (process_fragment fns m) MAX_RECURSION {} kvs = Some q" .
    with Suc.prems(1) q Mapping m show ?thesis by simp
  next
    case (Sequence xs)
    with Suc.prems(1) obtain q where
      q: "walk_list (process_fragment fns n) n 0 xs = Some q"
      by (cases "walk_list (process_fragment fns n) n 0 xs") auto
    from walk_list_more_fuel [of "process_fragment fns n" "process_fragment fns m", OF mono q m(2)]
    have "walk_list (process_fragment fns m) m 0 xs = Some q" .
    with Suc.prems(1) q Sequence m show ?thesis by simp
  qed (use Suc.prems(1) m in auto)
qed


section \<open>Properties of the registered functions\<close>

subsection \<open>Well-formed iteration specs\<close>

text \<open>
  The entries that lines 138-151 accept are exactly the \<open>spec_entry\<close> values, and
  the loop collects the names and the stringified values in order.
\<close>

lemma parse_specs_entries:
  "parse_specs cr fragment (map spec_entry nvs) =
     Inr (map fst nvs, map (\<lambda>nv. map (py_str cr) (snd nv)) nvs)"
  by (induction nvs) (simp_all add: spec_entry_def)

lemma parse_specs_Inr:
  "parse_specs cr fragment specs = Inr (ns, vss) \<Longrightarrow> \<exists>nvs. specs = map spec_entry nvs"
proof (induction specs arbitrary: ns vss)
  case Nil
  then show ?case by simp
next
  case (Cons s specs)
  from Cons.prems obtain n vs ns' vss' where
    s: "s = Sequence [Str n, Sequence vs]" and r: "parse_specs cr fragment specs = Inr (ns', vss')"
    by (auto split: json.splits list.splits sum.splits)
  from Cons.IH [OF r] obtain nvs where "specs = map spec_entry nvs" ..
  with s have "s # specs = map spec_entry ((n, vs) # nvs)" by (simp add: spec_entry_def)
  then show ?case ..
qed

subsection \<open>Splice rejects what is not a list\<close>

text \<open>
  C8. \<^verbatim>\<open>splice\<close> raises \<^verbatim>\<open>TypeError\<close> when the parent is not a list (there is no
  parent, or it is a dict), and when the parent is a list but the argument is not. In
  each case the parent comes back as it went in.
\<close>

theorem splice_type_mismatch:
  "splice Root argument = Some (Root, Some (TypeError NotEnoughFormatArguments))
   \<and> splice (Entry kvs k) argument = Some (Entry kvs k, Some (TypeError NotEnoughFormatArguments))
   \<and> ((\<forall>ys. argument \<noteq> Sequence ys) \<longrightarrow>
        splice (Elem xs i) argument =
          Some (Elem xs i, Some (TypeError (SpliceInto (type_name argument)))))"
  by (cases argument) simp_all

theorem splice_type_mismatch_witness:
  "splice Root (Str ''v'') = Some (Root, Some (TypeError NotEnoughFormatArguments))
   \<and> splice (Entry [(''k'', Null)] ''k'') (Str ''v'') =
       Some (Entry [(''k'', Null)] ''k'', Some (TypeError NotEnoughFormatArguments))
   \<and> (\<forall>ys. Str ''v'' \<noteq> Sequence ys)
   \<and> splice (Elem [Null] 0) (Str ''v'') = Some (Elem [Null] 0, Some (TypeError (SpliceInto ''str'')))"
  using splice_type_mismatch [of "Str ''v''" "[(''k'', Null)]" "''k''" "[Null]" 0]
  by (simp add: type_name_def)

subsection \<open>ForEach without variables, and with an empty value list\<close>

lemma dict_set_lookup: "map_of (dict_set k v d) k = Some v"
  by (induction d) auto

text \<open>
  C9. With an empty \<^verbatim>\<open>iteration_specs\<close> the loop body runs once, and the call is the
  assignment \<^verbatim>\<open>parent[key] = [json_string_sub(body, {})]\<close>. In a dict parent the call
  returns without an exception and the entry of \<^verbatim>\<open>key\<close> then holds this one-element
  list; in a list parent with \<^verbatim>\<open>key\<close> in range likewise the element at \<^verbatim>\<open>key\<close>. The
  list is not empty.
\<close>

theorem for_each_no_variables:
  "for_each cr parent (Sequence [Sequence [], body]) =
     Some (setitem parent (Sequence [json_string_sub body Map.empty]))
   \<and> for_each cr (Entry kvs k) (Sequence [Sequence [], body]) =
       Some (Entry (dict_set k (Sequence [json_string_sub body Map.empty]) kvs) k, None)
   \<and> map_of (dict_set k (Sequence [json_string_sub body Map.empty]) kvs) k =
       Some (Sequence [json_string_sub body Map.empty])
   \<and> (i < length xs \<longrightarrow>
        for_each cr (Elem xs i) (Sequence [Sequence [], body]) =
          Some (Elem (xs[i := Sequence [json_string_sub body Map.empty]]) i, None)
        \<and> xs[i := Sequence [json_string_sub body Map.empty]] ! i =
            Sequence [json_string_sub body Map.empty])
   \<and> Sequence [json_string_sub body Map.empty] \<noteq> Sequence []"
proof -
  have a: "\<And>parent. for_each cr parent (Sequence [Sequence [], body]) =
     Some (setitem parent (Sequence [json_string_sub body Map.empty]))"
    by (simp add: for_each_def for_each_loop.simps starting_values_def)
  show ?thesis by (simp add: a dict_set_lookup)
qed

theorem for_each_no_variables_witness:
  "for_each (\<lambda>v. []) (Entry [(''a'', Num 1), (''k'', Null)] ''k'')
      (Sequence [Sequence [], Str ''Hi ${missing} $$'']) =
     Some (Entry [(''a'', Num 1), (''k'', Sequence [Str ''Hi ${missing} $''])] ''k'', None)
   \<and> (0::nat) < length [Null, Num 1]
   \<and> for_each (\<lambda>v. []) (Elem [Null, Num 1] 0) (Sequence [Sequence [], Str ''Hi ${missing} $$'']) =
     Some (Elem [Sequence [Str ''Hi ${missing} $''], Num 1] 0, None)
   \<and> handler (functions_reg (\<lambda>v. [])) 5
       (Mapping [(''k'', Mapping [(''Turing::ForEach'', Sequence [Sequence [], Str ''Hi ${missing} $$''])])]) =
     Some (Mapping [(''k'', Sequence [Str ''Hi ${missing} $''])], ''success'')
   \<and> handler (functions_reg (\<lambda>v. [])) 5
       (Sequence [Mapping [(''Turing::ForEach'', Sequence [Sequence [], Str ''Hi ${missing} $$''])]]) =
     Some (Sequence [Sequence [Str ''Hi ${missing} $'']], ''success'')"
proof -
  have l: "(0::nat) < length [Null, Num 1]" by simp
  have s: "json_string_sub (Str ''Hi ${missing} $$'') Map.empty = Str ''Hi ${missing} $''"
    by (simp add: is_id_start_def is_id_char_def)
  have h1: "handler (functions_reg (\<lambda>v. [])) 5
       (Mapping [(''k'', Mapping [(''Turing::ForEach'', Sequence [Sequence [], Str ''Hi ${missing} $$''])])]) =
     Some (Mapping [(''k'', Sequence [Str ''Hi ${missing} $''])], ''success'')"
    by code_simp
  have h2: "handler (functions_reg (\<lambda>v. [])) 5
       (Sequence [Mapping [(''Turing::ForEach'', Sequence [Sequence [], Str ''Hi ${missing} $$''])]]) =
     Some (Sequence [Sequence [Str ''Hi ${missing} $'']], ''success'')"
    by code_simp
  from for_each_no_variables [of "\<lambda>v. []" _ "Str ''Hi ${missing} $$''"
      "[(''a'', Num 1), (''k'', Null)]" "''k''" 0 "[Null, Num 1]"] l
  have "for_each (\<lambda>v. []) (Entry [(''a'', Num 1), (''k'', Null)] ''k'')
      (Sequence [Sequence [], Str ''Hi ${missing} $$'']) =
     Some (Entry [(''a'', Num 1), (''k'', Sequence [Str ''Hi ${missing} $''])] ''k'', None)"
    and "for_each (\<lambda>v. []) (Elem [Null, Num 1] 0) (Sequence [Sequence [], Str ''Hi ${missing} $$'']) =
     Some (Elem [Sequence [Str ''Hi ${missing} $''], Num 1] 0, None)"
    by (simp_all add: s del: json_string_sub.simps)
  with l h1 h2 show ?thesis by (intro conjI)
qed

lemma for_each_empty_assigns:
  assumes "[] \<in> set (map snd nvs)"
  shows "for_each cr parent (Sequence [Sequence (map spec_entry nvs), body]) =
       Some (setitem parent (Sequence []))"
proof -
  from assms obtain nv where "nv \<in> set nvs" and "snd nv = []" by auto
  then have "list_ex (\<lambda>values. length values = 0) (map (\<lambda>nv. map (py_str cr) (snd nv)) nvs)"
    unfolding list_ex_iff by (intro bexI [of _ "map (py_str cr) (snd nv)"]) simp_all
  then show ?thesis
    by (simp add: for_each_def parse_specs_entries)
qed

text \<open>
  C6. When some variable of a well-formed \<^verbatim>\<open>iteration_specs\<close> has no value, the call
  is the assignment of the empty list to \<^verbatim>\<open>parent[key]\<close> and nothing more: the
  outcome is the same whatever the body is.
\<close>

theorem for_each_empty_value_list:
  "[] \<in> set (map snd nvs) \<Longrightarrow>
     for_each cr parent (Sequence [Sequence (map spec_entry nvs), body]) =
       Some (setitem parent (Sequence []))
     \<and> for_each cr parent (Sequence [Sequence (map spec_entry nvs), body]) =
       for_each cr parent (Sequence [Sequence (map spec_entry nvs), body'])"
  by (simp add: for_each_empty_assigns)

theorem for_each_empty_value_list_witness:
  "[] \<in> set (map snd [(''x'', [Num 1, Num 2]), (''y'', [])])
   \<and> for_each (\<lambda>v. []) (Entry [(''k'', Null)] ''k'')
        (Sequence [Sequence [Sequence [Str ''x'', Sequence [Num 1, Num 2]],
                             Sequence [Str ''y'', Sequence []]], Str ''${x}-${y}'']) =
       Some (Entry [(''k'', Sequence [])] ''k'', None)"
proof -
  have h: "[] \<in> set (map snd [(''x'', [Num 1, Num 2]), (''y'', [])])" by simp
  from for_each_empty_value_list [OF h, of "\<lambda>v. []" "Entry [(''k'', Null)] ''k''" "Str ''${x}-${y}''"]
  show ?thesis by (simp add: spec_entry_def)
qed

section \<open>Properties of the walker\<close>

subsection \<open>A function call among other entries\<close>

lemma call_functions_only_element:
  "n \<noteq> 1 \<Longrightarrow> (k0, v0) \<in> set items \<Longrightarrow> startswith k0 ''Turing::'' \<Longrightarrow>
     \<exists>k. startswith k ''Turing::'' \<and> k \<in> fst ` set items \<and>
       call_functions fns parent n items = Some (parent, Some (ValueError (OnlyElement k)))"
proof (induction items)
  case Nil
  then show ?case by simp
next
  case (Cons kv items)
  obtain k v where kv: "kv = (k, v)" by (cases kv)
  show ?case
  proof (cases "startswith k ''Turing::''")
    case True
    with Cons.prems(1) kv show ?thesis by auto
  next
    case False
    with Cons.prems kv have "(k0, v0) \<in> set items" by auto
    from Cons.IH [OF Cons.prems(1) this Cons.prems(3)] False kv show ?thesis by auto
  qed
qed

text \<open>
  C7. When the children of a mapping have converged to entries \<open>kvs'\<close> that hold a
  key with the prefix \<^verbatim>\<open>Turing::\<close> and the mapping does not have exactly one entry,
  \<^verbatim>\<open>process_fragment\<close> raises the \<^verbatim>\<open>ValueError\<close> of lines 73-75, wherever the
  prefixed entry stands. No registered function is called: the parent only sees the
  resolved children.
\<close>

theorem malformed_call:
  assumes "resolve_passes (process_fragment fns fuel) MAX_RECURSION {} kvs = Some (kvs', None)"
    and "(k0, v0) \<in> set kvs'" and "startswith k0 ''Turing::''" and "length kvs' \<noteq> 1"
  shows "\<exists>k. startswith k ''Turing::'' \<and> k \<in> fst ` set kvs' \<and>
     process_fragment fns (Suc fuel) parent (Mapping kvs) =
       Some ((in_place parent (Mapping kvs'), Mapping kvs'), Some (ValueError (OnlyElement k)))"
proof -
  from call_functions_only_element [OF assms(4) assms(2) assms(3)]
  obtain k where k: "startswith k ''Turing::''" "k \<in> fst ` set kvs'"
    "call_functions fns (in_place parent (Mapping kvs')) (length kvs') kvs' =
       Some (in_place parent (Mapping kvs'), Some (ValueError (OnlyElement k)))"
    by blast
  with assms(1) show ?thesis by auto
qed

theorem malformed_call_witness:
  "(\<exists>k. startswith k ''Turing::'' \<and> k \<in> fst ` set [(''a'', Num 1), (''Turing::Splice'', Sequence [])] \<and>
     process_fragment (functions_reg (\<lambda>v. [])) (Suc 1) Root
        (Mapping [(''a'', Num 1), (''Turing::Splice'', Sequence [])]) =
       Some ((Root, Mapping [(''a'', Num 1), (''Turing::Splice'', Sequence [])]),
             Some (ValueError (OnlyElement k))))
   \<and> (\<exists>k. startswith k ''Turing::'' \<and> k \<in> fst ` set [(''Turing::Splice'', Sequence []), (''a'', Num 1)] \<and>
     process_fragment (functions_reg (\<lambda>v. [])) (Suc 1) Root
        (Mapping [(''Turing::Splice'', Sequence []), (''a'', Num 1)]) =
       Some ((Root, Mapping [(''Turing::Splice'', Sequence []), (''a'', Num 1)]),
             Some (ValueError (OnlyElement k))))"
proof -
  let ?fns = "functions_reg (\<lambda>v. [])"
  let ?d1 = "[(''a'', Num 1), (''Turing::Splice'', Sequence [])]"
  let ?d2 = "[(''Turing::Splice'', Sequence []), (''a'', Num 1)]"
  have p1: "resolve_passes (process_fragment ?fns 1) MAX_RECURSION {} ?d1 = Some (?d1, None)"
    by code_simp
  have p2: "resolve_passes (process_fragment ?fns 1) MAX_RECURSION {} ?d2 = Some (?d2, None)"
    by code_simp
  have m: "(''Turing::Splice'', Sequence []) \<in> set ?d1" "(''Turing::Splice'', Sequence []) \<in> set ?d2"
    by simp_all
  have s: "startswith ''Turing::Splice'' ''Turing::''" by (simp add: startswith_def)
  have l: "length ?d1 \<noteq> 1" "length ?d2 \<noteq> 1" by simp_all
  from malformed_call [OF p1 m(1) s l(1), of Root] malformed_call [OF p2 m(2) s l(2), of Root]
  show ?thesis by simp
qed

section \<open>Properties of the interpolation\<close>

subsection \<open>Template strings\<close>

lemma not_id_dollar: "\<not> is_id_start CHR ''$''" "\<not> is_id_char CHR ''$''"
  by (simp_all add: is_id_start_def is_id_char_def)

lemma not_id_brace: "\<not> is_id_start CHR ''{''" "\<not> is_id_char CHR ''}''"
  by (simp_all add: is_id_start_def is_id_char_def)

lemma safe_substitute_text:
  "CHR ''$'' \<notin> set s \<Longrightarrow> safe_substitute b (s @ r) = s @ safe_substitute b r"
  by (induction s) auto

lemma span_identifier:
  assumes "list_all is_id_char n" and "case r of [] \<Rightarrow> True | c # cs \<Rightarrow> \<not> is_id_char c"
  shows "takeWhile is_id_char (n @ r) = n" and "dropWhile is_id_char (n @ r) = r"
proof -
  from assms(1) have a: "\<forall>c\<in>set n. is_id_char c" by (simp add: list_all_iff)
  from assms(2) have t: "takeWhile is_id_char r = []" and d: "dropWhile is_id_char r = r"
    by (cases r; simp)+
  from a t show "takeWhile is_id_char (n @ r) = n" by (simp add: takeWhile_append2)
  from a d show "dropWhile is_id_char (n @ r) = r" by (simp add: dropWhile_append2)
qed

lemma safe_substitute_named_raw:
  assumes "is_id_start d" and "takeWhile is_id_char (d # ds) = n" and "dropWhile is_id_char (d # ds) = r"
  shows "safe_substitute b (CHR ''$'' # d # ds) =
      (case b n of Some v \<Rightarrow> v @ safe_substitute b r | None \<Rightarrow> CHR ''$'' # n @ safe_substitute b r)"
proof -
  from assms(1) have d': "d \<noteq> CHR ''$''" using not_id_dollar(1) by auto
  show ?thesis
    by (subst safe_substitute.simps(2))
       (simp only: assms d' list.case Let_def if_True if_False simp_thms)
qed

lemma safe_substitute_braced_raw:
  assumes "ds \<noteq> []" and "is_id_start (hd ds)" and "takeWhile is_id_char ds = n"
    and "dropWhile is_id_char ds = CHR ''}'' # r"
  shows "safe_substitute b (CHR ''$'' # CHR ''{'' # ds) =
      (case b n of Some v \<Rightarrow> v @ safe_substitute b r
       | None \<Rightarrow> CHR ''$'' # CHR ''{'' # n @ CHR ''}'' # safe_substitute b r)"
proof -
  have c: "CHR ''{'' \<noteq> CHR ''$''" by simp
  have t: "tl (CHR ''}'' # r) = r" "hd (CHR ''}'' # r) = CHR ''}''" "CHR ''}'' # r \<noteq> []" by simp_all
  show ?thesis
    by (subst safe_substitute.simps(2))
       (simp only: assms c t not_id_brace list.case Let_def if_True if_False simp_thms)
qed

lemma safe_substitute_named:
  assumes "is_identifier n" and "case r of [] \<Rightarrow> True | c # cs \<Rightarrow> \<not> is_id_char c"
  shows "safe_substitute b (CHR ''$'' # n @ r) = expand b (Named n) @ safe_substitute b r"
proof -
  from assms(1) obtain d ds where n: "n = d # ds" and d: "is_id_start d" and all: "list_all is_id_char n"
    by (cases n) (auto simp: is_identifier_def)
  have sp: "takeWhile is_id_char (d # (ds @ r)) = n" "dropWhile is_id_char (d # (ds @ r)) = r"
    using span_identifier [OF all assms(2)] by (simp_all only: n append_Cons)
  from safe_substitute_named_raw [OF d sp, of b] show ?thesis
    by (simp only: n append_Cons expand.simps split: option.split) simp
qed

lemma safe_substitute_braced:
  assumes "is_identifier n"
  shows "safe_substitute b (CHR ''$'' # CHR ''{'' # n @ CHR ''}'' # r) = expand b (Braced n) @ safe_substitute b r"
proof -
  from assms obtain d ds where n: "n = d # ds" and d: "is_id_start d" and all: "list_all is_id_char n"
    by (cases n) (auto simp: is_identifier_def)
  have r: "case CHR ''}'' # r of [] \<Rightarrow> True | c # cs \<Rightarrow> \<not> is_id_char c"
    using not_id_brace(2) by simp
  have hd: "n @ CHR ''}'' # r \<noteq> []" "is_id_start (hd (n @ CHR ''}'' # r))" using n d by simp_all
  from safe_substitute_braced_raw [OF hd span_identifier [OF all r], of b] show ?thesis
    by (simp split: option.split del: safe_substitute.simps)
qed

lemma safe_substitute_escape:
  "safe_substitute b (CHR ''$'' # CHR ''$'' # r) = CHR ''$'' # safe_substitute b r"
  by simp

lemma safe_substitute_pieces:
  "well_formed ps \<Longrightarrow> safe_substitute b (concat (map render ps)) = concat (map (expand b) ps)"
proof (induction ps)
  case Nil
  then show ?case by simp
next
  case (Cons p ps)
  show ?case
  proof (cases p)
    case (Text s)
    with Cons show ?thesis by (simp add: safe_substitute_text del: safe_substitute.simps)
  next
    case (Named n)
    with Cons.prems have "is_identifier n"
      and "case concat (map render ps) of [] \<Rightarrow> True | c # cs \<Rightarrow> \<not> is_id_char c"
      and "well_formed ps" by simp_all
    with Cons.IH Named safe_substitute_named [of n "concat (map render ps)" b]
    show ?thesis by (simp del: safe_substitute.simps)
  next
    case (Braced n)
    with Cons.prems have "is_identifier n" and "well_formed ps" by simp_all
    with Cons.IH Braced safe_substitute_braced [of n b "concat (map render ps)"]
    show ?thesis by (simp del: safe_substitute.simps)
  next
    case Escape
    with Cons show ?thesis by (simp del: safe_substitute.simps add: safe_substitute_escape)
  qed
qed

subsection \<open>Dict comprehensions\<close>

lemma dict_set_fresh: "k \<notin> fst ` set d \<Longrightarrow> dict_set k v d = d @ [(k, v)]"
  by (induction d) auto

lemma fold_dict_set_distinct:
  "distinct (map fst (acc @ kvs)) \<Longrightarrow> fold (\<lambda>(k, v) d. dict_set k v d) kvs acc = acc @ kvs"
proof (induction kvs arbitrary: acc)
  case Nil
  then show ?case by simp
next
  case (Cons kv kvs)
  obtain k v where kv: "kv = (k, v)" by (cases kv)
  from Cons.prems kv have fresh: "k \<notin> fst ` set acc" by auto
  from Cons.prems kv have "distinct (map fst ((acc @ [(k, v)]) @ kvs))" by simp
  from Cons.IH [OF this] fresh kv show ?case by (simp add: dict_set_fresh)
qed

lemma dict_of_items_distinct: "distinct (map fst kvs) \<Longrightarrow> dict_of_items kvs = kvs"
  using fold_dict_set_distinct [of "[]" kvs] by (simp add: dict_of_items_def)

lemma map_of_dict_set: "map_of (dict_set k v d) = (map_of d)(k \<mapsto> v)"
  by (induction d) (auto simp: fun_eq_iff)

lemma map_of_fold_dict_set:
  "map_of (fold (\<lambda>(k, v) d. dict_set k v d) kvs acc) = map_of acc ++ map_of (rev kvs)"
proof (induction kvs arbitrary: acc)
  case Nil
  then show ?case by simp
next
  case (Cons kv kvs)
  obtain k v where kv: "kv = (k, v)" by (cases kv)
  show ?case
    by (simp add: kv Cons.IH map_of_dict_set map_add_def fun_eq_iff split: option.split)
qed

lemma map_of_dict_of_items: "map_of (dict_of_items kvs) = map_of (rev kvs)"
  by (simp add: dict_of_items_def map_of_fold_dict_set)

subsection \<open>The interpolation of a document\<close>

text \<open>
  C5. \<^verbatim>\<open>json_string_sub\<close> is a function of its arguments and builds a new value.
  A mapping gives the dict of its substituted keys and values, inserted in order (the
  same list of entries when the substituted keys stay distinct); a sequence gives the
  sequence of its substituted elements; a string gives each piece expanded: a
  placeholder whose name the binding holds becomes its value, one whose name is absent
  stays as written, and \<^verbatim>\<open>$$\<close> becomes \<^verbatim>\<open>$\<close>; any other scalar is returned
  unchanged.
\<close>

theorem json_string_sub_interpolates:
  "json_string_sub (Mapping kvs) b =
     Mapping (dict_of_items (map (\<lambda>(k, v). (safe_substitute b k, json_string_sub v b)) kvs))
   \<and> (distinct (map (\<lambda>kv. safe_substitute b (fst kv)) kvs) \<longrightarrow>
        json_string_sub (Mapping kvs) b =
          Mapping (map (\<lambda>(k, v). (safe_substitute b k, json_string_sub v b)) kvs))
   \<and> json_string_sub (Sequence xs) b = Sequence (map (\<lambda>x. json_string_sub x b) xs)
   \<and> (well_formed ps \<longrightarrow>
        json_string_sub (Str (concat (map render ps))) b = Str (concat (map (expand b) ps)))
   \<and> json_string_sub (Num i) b = Num i \<and> json_string_sub (Flt f) b = Flt f
   \<and> json_string_sub (Bool t) b = Bool t \<and> json_string_sub Null b = Null"
proof -
  have "distinct (map fst (map (\<lambda>(k, v). (safe_substitute b k, json_string_sub v b)) kvs))"
    if "distinct (map (\<lambda>kv. safe_substitute b (fst kv)) kvs)"
  proof -
    have "map fst (map (\<lambda>(k, v). (safe_substitute b k, json_string_sub v b)) kvs) =
          map (\<lambda>kv. safe_substitute b (fst kv)) kvs"
      by (simp add: comp_def case_prod_unfold)
    with that show ?thesis by (simp only:)
  qed
  then show ?thesis
    by (simp add: dict_of_items_distinct safe_substitute_pieces del: safe_substitute.simps)
qed

theorem json_string_sub_interpolates_witness:
  "distinct (map (\<lambda>kv. safe_substitute [''x'' \<mapsto> ''1''] (fst kv)) [(''k$x'', Str ''Hi ${missing}''), (''k'', Num 2)])
   \<and> json_string_sub (Mapping [(''k$x'', Str ''Hi ${missing}''), (''k'', Num 2)]) [''x'' \<mapsto> ''1''] =
       Mapping [(''k1'', Str ''Hi ${missing}''), (''k'', Num 2)]
   \<and> well_formed [Text ''Hi '', Braced ''missing'', Text '' '', Named ''x'', Escape, Braced ''x'', Text ''y'']
   \<and> json_string_sub (Str ''Hi ${missing} $x$$${x}y'') [''x'' \<mapsto> ''1''] = Str ''Hi ${missing} 1$1y''"
proof -
  let ?b = "[''x'' \<mapsto> ''1'']"
  let ?kvs = "[(''k$x'', Str ''Hi ${missing}''), (''k'', Num 2)]"
  let ?ps = "[Text ''Hi '', Braced ''missing'', Text '' '', Named ''x'', Escape, Braced ''x'', Text ''y'']"
  have d: "distinct (map (\<lambda>kv. safe_substitute ?b (fst kv)) ?kvs)"
    by (simp add: is_id_start_def is_id_char_def)
  have w: "well_formed ?ps"
    by (simp add: is_identifier_def is_id_start_def is_id_char_def)
  from json_string_sub_interpolates [of ?kvs ?b "[]" ?ps 0 "[]" True] d w
  show ?thesis by (simp add: is_id_start_def is_id_char_def)
qed

section \<open>The odometer of ForEach\<close>

text \<open>
  The inner \<^verbatim>\<open>for\<close> loop of lines 179-195 steps the index vector as
  \<open>next_index\<close> does, whatever the names and the current values are.
\<close>

lemma next_index_snoc:
  "length ls = length ds \<Longrightarrow>
     next_index (ls @ [l]) (ds @ [d]) =
       (if d + 1 < l then Some (ds @ [Suc d])
        else map_option (\<lambda>ds'. ds' @ [0]) (next_index ls ds))"
proof (induction ls ds rule: list_induct2)
  case Nil
  show ?case by simp
next
  case (Cons l0 ls d0 ds)
  show ?case
  proof (cases "d + 1 < l")
    case True
    with Cons.IH show ?thesis by simp
  next
    case False
    with Cons.IH show ?thesis
      by (cases "next_index ls ds") (simp_all add: replicate_append_same)
  qed
qed

lemma advance_index:
  "j \<le> length indexes \<Longrightarrow> length var_values = length indexes \<Longrightarrow>
     map_option fst (advance var_names var_values j indexes cv) =
       map_option (\<lambda>pre. pre @ drop j indexes)
         (next_index (map length (take j var_values)) (take j indexes))"
proof (induction j arbitrary: indexes cv)
  case 0
  show ?case by simp
next
  case (Suc i)
  then have i: "i < length indexes" "i < length var_values" by simp_all
  have tk: "take (Suc i) indexes = take i indexes @ [indexes ! i]"
    "map length (take (Suc i) var_values) = map length (take i var_values) @ [length (var_values ! i)]"
    using i by (simp_all add: take_Suc_conv_app_nth)
  have len: "length (map length (take i var_values)) = length (take i indexes)"
    using i by simp
  show ?case
  proof (cases "indexes ! i + 1 < length (var_values ! i)")
    case True
    have "take i indexes @ [Suc (indexes ! i)] @ drop (Suc i) indexes = indexes[i := Suc (indexes ! i)]"
      using i by (simp add: upd_conv_take_nth_drop)
    with True show ?thesis
      by (simp add: tk next_index_snoc [OF len] del: take_Suc_conv_app_nth)
  next
    case False
    let ?idx = "indexes[i := 0]"
    have ih: "map_option fst (advance var_names var_values i ?idx
                 (cv(var_names ! i \<mapsto> var_values ! i ! 0))) =
        map_option (\<lambda>pre. pre @ drop i ?idx)
          (next_index (map length (take i var_values)) (take i ?idx))"
      using Suc.prems by (intro Suc.IH) simp_all
    have d: "drop i ?idx = 0 # drop (Suc i) indexes"
      using i by (simp add: drop_update_cancel Cons_nth_drop_Suc [symmetric] upd_conv_take_nth_drop)
    from False ih d show ?thesis
      by (simp add: tk next_index_snoc [OF len] option.map_comp comp_def)
  qed
qed

lemma advance_index_all:
  assumes "length var_values = length indexes" and "n = length indexes"
  shows "map_option fst (advance var_names var_values n indexes cv) =
           next_index (map length var_values) indexes"
  using advance_index [of n indexes var_values var_names cv] assms
  by (simp add: option.map_ident)

text \<open>
  The index vectors in odometer order form a run of \<open>next_index\<close>: each one steps to
  the next, and the last one has no successor.
\<close>

lemma linked_append:
  "linked f xs \<Longrightarrow> linked f ys \<Longrightarrow> (xs \<noteq> [] \<Longrightarrow> ys \<noteq> [] \<Longrightarrow> f (last xs) = Some (hd ys)) \<Longrightarrow>
     linked f (xs @ ys)"
proof (induction f xs rule: linked.induct)
  case (1 f)
  then show ?case by simp
next
  case (2 f s)
  then show ?case by (cases ys) simp_all
next
  case (3 f s t ss)
  then show ?case by simp
qed

lemma linked_map_Cons:
  "linked (next_index ls) P \<Longrightarrow> linked (next_index (l # ls)) (map (Cons d) P)"
  by (induction "next_index ls" P rule: linked.induct) simp_all

lemma all_indexes_Cons:
  "all_indexes (l # ls) = concat (map (\<lambda>d. map (Cons d) (all_indexes ls)) [0..<l])"
  by (simp add: all_indexes_def)

lemma all_indexes_length: "idx \<in> set (all_indexes ls) \<Longrightarrow> length idx = length ls"
  unfolding all_indexes_def by (drule in_set_product_lists_length) simp

lemma all_indexes_start:
  "\<forall>l\<in>set ls. 0 < l \<Longrightarrow> all_indexes ls \<noteq> [] \<and> hd (all_indexes ls) = replicate (length ls) 0"
proof (induction ls)
  case Nil
  show ?case by (simp add: all_indexes_def)
next
  case (Cons l ls)
  then have ih: "all_indexes ls \<noteq> []" "hd (all_indexes ls) = replicate (length ls) 0" and l: "0 < l"
    by simp_all
  from l have u: "[0..<l] = 0 # [1..<l]" by (simp add: upt_conv_Cons)
  from ih show ?case
    by (simp add: all_indexes_Cons u hd_map)
qed

lemma blocks_linked:
  assumes P: "linked (next_index ls) P" "P \<noteq> []" "next_index ls (last P) = None"
    "hd P = replicate (length ls) 0" "length (last P) = length ls"
  shows "d \<le> l \<Longrightarrow> linked (next_index (l # ls)) (concat (map (\<lambda>d. map (Cons d) P) [d..<l]))
     \<and> (d < l \<longrightarrow> next_index (l # ls) (last (concat (map (\<lambda>d. map (Cons d) P) [d..<l]))) = None)"
proof (induction "l - d" arbitrary: d)
  case 0
  then show ?case by simp
next
  case (Suc k)
  then have d: "d < l" by simp
  let ?B = "map (Cons d) P"
  let ?R = "concat (map (\<lambda>d. map (Cons d) P) [Suc d..<l])"
  from d have u: "[d..<l] = d # [Suc d..<l]" by (simp add: upt_conv_Cons)
  have B: "linked (next_index (l # ls)) ?B" using P(1) by (rule linked_map_Cons)
  have lastB: "last ?B = d # last P" using P(2) by (simp add: last_map)
  from Suc.hyps(2) have k: "k = l - Suc d" by simp
  from d have "Suc d \<le> l" by simp
  from Suc.hyps(1) [OF k this]
  have R: "linked (next_index (l # ls)) ?R"
    and Rlast: "Suc d < l \<longrightarrow> next_index (l # ls) (last ?R) = None" by simp_all
  show ?case
  proof (cases "Suc d < l")
    case True
    then have u': "[Suc d..<l] = Suc d # [Suc (Suc d)..<l]" by (simp add: upt_conv_Cons)
    have Rne: "?R \<noteq> []" using P(2) by (simp add: u')
    have hdR: "hd ?R = Suc d # replicate (length ls) 0"
      using P(2) P(4) by (simp add: u' hd_map)
    have step: "next_index (l # ls) (last ?B) = Some (hd ?R)"
      using True P(3) P(5) by (simp add: lastB hdR)
    have "linked (next_index (l # ls)) (?B @ ?R)"
      using B R step by (intro linked_append) simp_all
    moreover have "last (?B @ ?R) = last ?R" using Rne by simp
    ultimately show ?thesis using Rlast True by (simp add: u)
  next
    case False
    with d have "Suc d = l" by simp
    then have Rnil: "?R = []" by simp
    have "next_index (l # ls) (last ?B) = None"
      using P(3) \<open>Suc d = l\<close> by (simp add: lastB)
    with B show ?thesis by (simp add: u Rnil)
  qed
qed

lemma all_indexes_run:
  "\<forall>l\<in>set ls. 0 < l \<Longrightarrow>
     linked (next_index ls) (all_indexes ls) \<and> next_index ls (last (all_indexes ls)) = None"
proof (induction ls)
  case Nil
  show ?case by (simp add: all_indexes_def)
next
  case (Cons l ls)
  then have ih: "linked (next_index ls) (all_indexes ls)" "next_index ls (last (all_indexes ls)) = None"
    and pos: "\<forall>l\<in>set ls. 0 < l" and l: "0 < l" by simp_all
  from all_indexes_start [OF pos]
  have ne: "all_indexes ls \<noteq> []" and hd: "hd (all_indexes ls) = replicate (length ls) 0" by simp_all
  from ne have "last (all_indexes ls) \<in> set (all_indexes ls)" by simp
  then have len: "length (last (all_indexes ls)) = length ls" by (rule all_indexes_length)
  from blocks_linked [OF ih(1) ne ih(2) hd len, of 0 l] l
  show ?case by (simp add: all_indexes_Cons)
qed

text \<open>
  The \<^verbatim>\<open>while True\<close> loop follows a run of \<open>next_index\<close> to its end, appending one
  element per index vector: it returns, for any names. When the names are pairwise
  distinct, \<^verbatim>\<open>current_values\<close> is the binding of the current combination at every
  iteration.
\<close>

lemma advance_None:
  assumes "length var_values = length indexes" and "length var_names = length indexes"
    and "next_index (map length var_values) indexes = None"
  shows "advance var_names var_values (length var_names) indexes cv = None"
  using advance_index_all [OF assms(1), of "length var_names" var_names cv] assms(2,3) by simp

lemma advance_Some:
  assumes "length var_values = length indexes" and "length var_names = length indexes"
    and "next_index (map length var_values) indexes = Some indexes'"
  shows "\<exists>cv'. advance var_names var_values (length var_names) indexes cv = Some (indexes', cv')"
  using advance_index_all [OF assms(1), of "length var_names" var_names cv] assms(2,3) by auto

lemma for_each_loop_returns:
  assumes "length var_values = length var_names"
  shows "linked (next_index (map length var_values)) (i0 # is) \<Longrightarrow>
     next_index (map length var_values) (last (i0 # is)) = None \<Longrightarrow>
     \<forall>idx\<in>set (i0 # is). length idx = length var_names \<Longrightarrow>
     \<exists>out. length out = Suc (length is) \<and>
       for_each_loop body var_names var_values i0 cv result = Some (result @ out)"
proof (induction "is" arbitrary: i0 cv result)
  case Nil
  then have "advance var_names var_values (length var_names) i0 cv = None"
    using assms by (intro advance_None) simp_all
  then show ?case by (subst for_each_loop.simps) simp
next
  case (Cons i1 "is")
  from Cons.prems(1) have n: "next_index (map length var_values) i0 = Some i1"
    and l: "linked (next_index (map length var_values)) (i1 # is)" by simp_all
  from Cons.prems(3) have len0: "length i0 = length var_names" by simp
  from assms len0 have lv: "length var_values = length i0" by simp
  from advance_Some [OF lv len0 [symmetric] n, of cv]
  obtain cv' where a: "advance var_names var_values (length var_names) i0 cv = Some (i1, cv')"
    by blast
  from Cons.prems(2) have e: "next_index (map length var_values) (last (i1 # is)) = None" by simp
  from Cons.prems(3) have al: "\<forall>idx\<in>set (i1 # is). length idx = length var_names" by simp
  from Cons.IH [OF l e al, of cv' "result @ [json_string_sub body cv]"]
  obtain out where o: "length out = Suc (length is)"
    "for_each_loop body var_names var_values i1 cv' (result @ [json_string_sub body cv]) =
       Some ((result @ [json_string_sub body cv]) @ out)" by blast
  have "for_each_loop body var_names var_values i0 cv result =
      Some (result @ json_string_sub body cv # out)"
    by (subst for_each_loop.simps) (simp add: a o(2))
  with o(1) show ?case by (intro exI [of _ "json_string_sub body cv # out"]) simp
qed

lemma map_of_zip_update:
  "distinct var_names \<Longrightarrow> i < length var_names \<Longrightarrow> length cs = length var_names \<Longrightarrow>
     (map_of (zip var_names cs))(var_names ! i \<mapsto> x) = map_of (zip var_names (cs[i := x]))"
proof (induction var_names arbitrary: i cs)
  case Nil
  then show ?case by simp
next
  case (Cons n ns)
  then obtain c cs' where cs: "cs = c # cs'" by (cases cs) auto
  show ?case
  proof (cases i)
    case 0
    then show ?thesis by (auto simp: cs fun_eq_iff)
  next
    case (Suc i')
    with Cons.prems cs have ih: "(map_of (zip ns cs'))(ns ! i' \<mapsto> x) = map_of (zip ns (cs'[i' := x]))"
      by (intro Cons.IH) simp_all
    from Cons.prems Suc have ne: "ns ! i' \<noteq> n" by auto
    have "(map_of (zip (n # ns) cs))((n # ns) ! i \<mapsto> x) =
          ((map_of (zip ns cs'))(n \<mapsto> c))(ns ! i' \<mapsto> x)"
      by (simp add: cs Suc)
    also have "\<dots> = ((map_of (zip ns cs'))(ns ! i' \<mapsto> x))(n \<mapsto> c)"
      using ne by (auto simp: fun_eq_iff)
    also have "\<dots> = map_of (zip (n # ns) (cs[i := x]))"
      by (simp add: ih cs Suc)
    finally show ?thesis .
  qed
qed

lemma values_at_update:
  "i < length indexes \<Longrightarrow> length var_values = length indexes \<Longrightarrow>
     values_at var_values (indexes[i := v]) = (values_at var_values indexes)[i := var_values ! i ! v]"
proof -
  assume a: "i < length indexes" "length var_values = length indexes"
  have "zip var_values (indexes[i := v]) = (zip var_values indexes)[i := (var_values ! i, v)]"
    using a by (simp add: update_zip)
  then show ?thesis by (simp add: values_at_def map_update)
qed

lemma binding_update:
  assumes "distinct var_names" and "i < length indexes" and "length var_values = length indexes"
    and "length var_names = length indexes"
  shows "(binding var_names (values_at var_values indexes))(var_names ! i \<mapsto> var_values ! i ! v) =
     binding var_names (values_at var_values (indexes[i := v]))"
proof -
  have "length (values_at var_values indexes) = length var_names"
    using assms by (simp add: values_at_def)
  with assms show ?thesis
    by (simp add: binding_def values_at_update map_of_zip_update)
qed

lemma advance_binding:
  assumes "distinct var_names" and "length var_values = length var_names"
  shows "j \<le> length indexes \<Longrightarrow> length indexes = length var_names \<Longrightarrow>
     advance var_names var_values j indexes (binding var_names (values_at var_values indexes)) =
       Some (indexes', cv') \<Longrightarrow>
     cv' = binding var_names (values_at var_values indexes')"
proof (induction j arbitrary: indexes)
  case 0
  then show ?case by simp
next
  case (Suc i)
  then have i: "i < length indexes" by simp
  have upd: "\<And>v. (binding var_names (values_at var_values indexes))(var_names ! i \<mapsto> var_values ! i ! v) =
     binding var_names (values_at var_values (indexes[i := v]))"
    using assms Suc.prems(2) i by (intro binding_update) simp_all
  show ?case
  proof (cases "indexes ! i + 1 < length (var_values ! i)")
    case True
    with Suc.prems(3) upd [of "Suc (indexes ! i)"] show ?thesis by auto
  next
    case False
    with Suc.prems(3) upd [of 0]
    have "advance var_names var_values i (indexes[i := 0])
            (binding var_names (values_at var_values (indexes[i := 0]))) = Some (indexes', cv')"
      by simp
    with Suc.prems show ?thesis by (intro Suc.IH) simp_all
  qed
qed

lemma for_each_loop_distinct:
  assumes "distinct var_names" and "length var_values = length var_names"
  shows "linked (next_index (map length var_values)) (i0 # is) \<Longrightarrow>
     next_index (map length var_values) (last (i0 # is)) = None \<Longrightarrow>
     \<forall>idx\<in>set (i0 # is). length idx = length var_names \<Longrightarrow>
     for_each_loop body var_names var_values i0 (binding var_names (values_at var_values i0)) result =
       Some (result @ map (\<lambda>idx. json_string_sub body (binding var_names (values_at var_values idx)))
                        (i0 # is))"
proof (induction "is" arbitrary: i0 result)
  case Nil
  then have "advance var_names var_values (length var_names) i0
      (binding var_names (values_at var_values i0)) = None"
    using assms by (intro advance_None) simp_all
  then show ?case by (subst for_each_loop.simps) simp
next
  case (Cons i1 "is")
  let ?cv = "binding var_names (values_at var_values i0)"
  from Cons.prems(1) have n: "next_index (map length var_values) i0 = Some i1"
    and l: "linked (next_index (map length var_values)) (i1 # is)" by simp_all
  from Cons.prems(3) have len0: "length i0 = length var_names" by simp
  from assms len0 have lv: "length var_values = length i0" by simp
  from advance_Some [OF lv len0 [symmetric] n, of ?cv]
  obtain cv' where a: "advance var_names var_values (length var_names) i0 ?cv = Some (i1, cv')"
    by blast
  from advance_binding [OF assms _ len0 a] len0
  have cv': "cv' = binding var_names (values_at var_values i1)" by simp
  from Cons.prems(2) have e: "next_index (map length var_values) (last (i1 # is)) = None" by simp
  from Cons.prems(3) have al: "\<forall>idx\<in>set (i1 # is). length idx = length var_names" by simp
  show ?case
    by (subst for_each_loop.simps)
       (simp add: a cv' Cons.IH [OF l e al, of "result @ [json_string_sub body ?cv]"])
qed

lemma fold_starting_values:
  "distinct var_names \<Longrightarrow> k \<le> length var_names \<Longrightarrow>
     fold (\<lambda>i cv. cv(var_names ! i \<mapsto> f i)) [0..<k] Map.empty =
       map_of (zip (take k var_names) (map f [0..<k]))"
proof (induction k)
  case 0
  show ?case by simp
next
  case (Suc k)
  then have k: "k < length var_names" by simp
  have ih: "fold (\<lambda>i cv. cv(var_names ! i \<mapsto> f i)) [0..<k] Map.empty =
       map_of (zip (take k var_names) (map f [0..<k]))"
    using Suc.prems by (intro Suc.IH) simp_all
  have fresh: "var_names ! k \<notin> set (take k var_names)"
    using Suc.prems(1) k by (auto simp: in_set_conv_nth distinct_conv_nth)
  have z: "zip (take (Suc k) var_names) (map f [0..<Suc k]) =
           zip (take k var_names) (map f [0..<k]) @ [(var_names ! k, f k)]"
    using k by (simp add: take_Suc_conv_app_nth)
  have "map_of (zip (take k var_names) (map f [0..<k])) (var_names ! k) = None"
  proof (rule ccontr)
    assume "map_of (zip (take k var_names) (map f [0..<k])) (var_names ! k) \<noteq> None"
    then obtain y where "map_of (zip (take k var_names) (map f [0..<k])) (var_names ! k) = Some y"
      by auto
    then have "(var_names ! k, y) \<in> set (zip (take k var_names) (map f [0..<k]))"
      by (rule map_of_SomeD)
    then have "var_names ! k \<in> set (take k var_names)" by (rule set_zip_leftD)
    with fresh show False by simp
  qed
  then have m: "(map_of (zip (take k var_names) (map f [0..<k])))(var_names ! k \<mapsto> f k) =
        map_of (zip (take k var_names) (map f [0..<k]) @ [(var_names ! k, f k)])"
    by (auto simp: fun_eq_iff map_add_def split: option.split)
  have "[0..<Suc k] = [0..<k] @ [k]" by simp
  then have "fold (\<lambda>i cv. cv(var_names ! i \<mapsto> f i)) [0..<Suc k] Map.empty =
      (fold (\<lambda>i cv. cv(var_names ! i \<mapsto> f i)) [0..<k] Map.empty)(var_names ! k \<mapsto> f k)"
    by (simp only: fold_append fold.simps comp_apply id_apply)
  also have "\<dots> = map_of (zip (take (Suc k) var_names) (map f [0..<Suc k]))"
    by (simp only: ih m z)
  finally show ?case .
qed

lemma values_at_zeros:
  "values_at var_values (replicate (length var_values) 0) = map (\<lambda>i. var_values ! i ! 0) [0..<length var_values]"
  by (rule nth_equalityI) (simp_all add: values_at_def)

lemma starting_values_binding:
  assumes "distinct var_names" and "length var_values = length var_names"
  shows "starting_values var_names var_values =
     binding var_names (values_at var_values (replicate (length var_names) 0))"
  using fold_starting_values [OF assms(1), of "length var_names" "\<lambda>i. var_values ! i ! 0"]
    values_at_zeros [of var_values] assms(2)
  by (simp add: starting_values_def binding_def)

lemma values_at_Cons: "values_at (vs # vss) (d # ds) = vs ! d # values_at vss ds"
  by (simp add: values_at_def)

lemma values_at_all_indexes:
  "map (values_at var_values) (all_indexes (map length var_values)) = product_lists var_values"
proof (induction var_values)
  case Nil
  show ?case by (simp add: all_indexes_def values_at_def)
next
  case (Cons vs vss)
  have "map (values_at (vs # vss)) (all_indexes (map length (vs # vss))) =
        concat (map (\<lambda>d. map (Cons (vs ! d)) (map (values_at vss) (all_indexes (map length vss))))
                    [0..<length vs])"
    by (simp add: all_indexes_Cons map_concat comp_def values_at_Cons)
  also have "\<dots> = concat (map (\<lambda>x. map (Cons x) (product_lists vss)) (map (nth vs) [0..<length vs]))"
    by (simp add: Cons.IH comp_def)
  also have "\<dots> = product_lists (vs # vss)"
    by (simp only: map_nth product_lists.simps)
  finally show ?case .
qed

lemma length_all_indexes: "length (all_indexes ls) = prod_list ls"
  by (induction ls) (simp_all add: all_indexes_def length_concat comp_def sum_list_triv)

lemma for_each_unfold:
  assumes "\<forall>nv\<in>set nvs. snd nv \<noteq> []"
  shows "for_each cr parent (Sequence [Sequence (map spec_entry nvs), body]) =
     (case for_each_loop body (map fst nvs) (map (\<lambda>nv. map (py_str cr) (snd nv)) nvs)
             (replicate (length nvs) 0)
             (starting_values (map fst nvs) (map (\<lambda>nv. map (py_str cr) (snd nv)) nvs)) [] of
        None \<Rightarrow> None
      | Some result \<Rightarrow> Some (setitem parent (Sequence result)))"
proof -
  from assms have "\<not> list_ex (\<lambda>values. length values = 0) (map (\<lambda>nv. map (py_str cr) (snd nv)) nvs)"
    by (auto simp: list_ex_iff)
  then show ?thesis by (simp add: for_each_def parse_specs_entries)
qed

lemma odometer_run:
  assumes "\<forall>l\<in>set ls. 0 < l"
  obtains "is" where "all_indexes ls = replicate (length ls) 0 # is"
    and "linked (next_index ls) (replicate (length ls) 0 # is)"
    and "next_index ls (last (replicate (length ls) 0 # is)) = None"
    and "\<forall>idx\<in>set (replicate (length ls) 0 # is). length idx = length ls"
proof -
  from all_indexes_start [OF assms] obtain "is" where
    a: "all_indexes ls = replicate (length ls) 0 # is"
    by (cases "all_indexes ls") auto
  from all_indexes_run [OF assms] a
  have "linked (next_index ls) (replicate (length ls) 0 # is)"
    "next_index ls (last (replicate (length ls) 0 # is)) = None" by simp_all
  moreover have "\<forall>idx\<in>set (replicate (length ls) 0 # is). length idx = length ls"
    using all_indexes_length [of _ ls] a by (metis)
  ultimately show ?thesis using a that by blast
qed

lemma for_each_returns:
  assumes "\<forall>nv\<in>set nvs. snd nv \<noteq> []"
  shows "\<exists>out. length out = prod_list (map (\<lambda>nv. length (snd nv)) nvs) \<and>
     for_each cr parent (Sequence [Sequence (map spec_entry nvs), body]) =
       Some (setitem parent (Sequence out))"
proof -
  let ?names = "map fst nvs"
  let ?vals = "map (\<lambda>nv. map (py_str cr) (snd nv)) nvs"
  let ?ls = "map length ?vals"
  have pos: "\<forall>l\<in>set ?ls. 0 < l" using assms by auto
  have len: "length ?vals = length ?names" by simp
  from odometer_run [OF pos] obtain "is" where
    a: "all_indexes ?ls = replicate (length ?ls) 0 # is"
    and l: "linked (next_index ?ls) (replicate (length ?ls) 0 # is)"
    and e: "next_index ?ls (last (replicate (length ?ls) 0 # is)) = None"
    and al: "\<forall>idx\<in>set (replicate (length ?ls) 0 # is). length idx = length ?ls" by blast
  from al have al': "\<forall>idx\<in>set (replicate (length ?ls) 0 # is). length idx = length ?names" by simp
  from for_each_loop_returns [OF len l e al', of body "starting_values ?names ?vals" "[]"]
  obtain out where o: "length out = Suc (length is)"
    "for_each_loop body ?names ?vals (replicate (length ?ls) 0) (starting_values ?names ?vals) [] = Some out"
    by auto
  have "Suc (length is) = length (all_indexes ?ls)" by (subst a) simp
  also have "\<dots> = prod_list (map (\<lambda>nv. length (snd nv)) nvs)"
    by (simp add: length_all_indexes comp_def)
  finally have "length out = prod_list (map (\<lambda>nv. length (snd nv)) nvs)" using o(1) by simp
  moreover have "for_each cr parent (Sequence [Sequence (map spec_entry nvs), body]) =
       Some (setitem parent (Sequence out))"
    using o(2) by (simp add: for_each_unfold [OF assms])
  ultimately show ?thesis by blast
qed

text \<open>
  C2, as amended. For well-formed iteration specs with pairwise distinct variable names
  and no empty value list, \<^verbatim>\<open>for_each\<close> assigns to \<^verbatim>\<open>parent[key]\<close> the list of
  the body substituted with the binding of each combination, the combinations taken in
  the order of \<open>product_lists\<close> (the first variable varies slowest, the last fastest);
  its length is the product of the lengths of the value lists.
\<close>

theorem for_each_odometer:
  assumes "distinct (map fst nvs)" and "[] \<notin> set (map snd nvs)"
  shows "for_each cr parent (Sequence [Sequence (map spec_entry nvs), body]) =
       Some (setitem parent (Sequence
         (map (\<lambda>combination. json_string_sub body (binding (map fst nvs) combination))
              (product_lists (map (\<lambda>nv. map (py_str cr) (snd nv)) nvs)))))
     \<and> length (product_lists (map (\<lambda>nv. map (py_str cr) (snd nv)) nvs)) =
         prod_list (map (\<lambda>nv. length (snd nv)) nvs)"
proof -
  let ?names = "map fst nvs"
  let ?vals = "map (\<lambda>nv. map (py_str cr) (snd nv)) nvs"
  let ?ls = "map length ?vals"
  from assms(2) have nonempty: "\<forall>nv\<in>set nvs. snd nv \<noteq> []" by force
  then have pos: "\<forall>l\<in>set ?ls. 0 < l" by auto
  have len: "length ?vals = length ?names" by simp
  from odometer_run [OF pos] obtain "is" where
    a: "all_indexes ?ls = replicate (length ?ls) 0 # is"
    and l: "linked (next_index ?ls) (replicate (length ?ls) 0 # is)"
    and e: "next_index ?ls (last (replicate (length ?ls) 0 # is)) = None"
    and al: "\<forall>idx\<in>set (replicate (length ?ls) 0 # is). length idx = length ?ls" by blast
  from al have al': "\<forall>idx\<in>set (replicate (length ?ls) 0 # is). length idx = length ?names" by simp
  have st: "starting_values ?names ?vals = binding ?names (values_at ?vals (replicate (length ?ls) 0))"
    using starting_values_binding [OF assms(1) len] by simp
  have "for_each_loop body ?names ?vals (replicate (length ?ls) 0) (starting_values ?names ?vals) [] =
      Some (map (\<lambda>idx. json_string_sub body (binding ?names (values_at ?vals idx))) (all_indexes ?ls))"
    using for_each_loop_distinct [OF assms(1) len l e al', of body "[]"]
    by (simp only: st a append_Nil)
  also have "map (\<lambda>idx. json_string_sub body (binding ?names (values_at ?vals idx))) (all_indexes ?ls) =
      map (\<lambda>combination. json_string_sub body (binding ?names combination))
          (map (values_at ?vals) (all_indexes ?ls))"
    by (simp add: comp_def)
  also have "map (values_at ?vals) (all_indexes ?ls) = product_lists ?vals"
    by (rule values_at_all_indexes)
  finally have loop: "for_each_loop body ?names ?vals (replicate (length ?ls) 0)
      (starting_values ?names ?vals) [] =
      Some (map (\<lambda>combination. json_string_sub body (binding ?names combination)) (product_lists ?vals))" .
  have "length (product_lists ?vals) = length (map (values_at ?vals) (all_indexes ?ls))"
    by (simp only: values_at_all_indexes)
  also have "\<dots> = prod_list (map (\<lambda>nv. length (snd nv)) nvs)"
    by (simp add: length_all_indexes comp_def)
  finally have n: "length (product_lists ?vals) = prod_list (map (\<lambda>nv. length (snd nv)) nvs)" .
  from loop have "for_each cr parent (Sequence [Sequence (map spec_entry nvs), body]) =
       Some (setitem parent (Sequence
         (map (\<lambda>combination. json_string_sub body (binding ?names combination)) (product_lists ?vals))))"
    by (simp add: for_each_unfold [OF nonempty])
  with n show ?thesis by blast
qed

theorem for_each_odometer_witness:
  "distinct (map fst [(''x'', [Num 1, Num 2]), (''y'', [Str ''a'', Str ''b''])])
   \<and> [] \<notin> set (map snd [(''x'', [Num 1, Num 2]), (''y'', [Str ''a'', Str ''b''])])
   \<and> for_each (\<lambda>v. []) (Entry [(''k'', Null)] ''k'')
        (Sequence [Sequence [Sequence [Str ''x'', Sequence [Num 1, Num 2]],
                             Sequence [Str ''y'', Sequence [Str ''a'', Str ''b'']]],
                   Str ''${x}-${y}'']) =
       Some (Entry [(''k'', Sequence [Str ''1-a'', Str ''1-b'', Str ''2-a'', Str ''2-b''])] ''k'', None)"
proof -
  let ?nvs = "[(''x'', [Num 1, Num 2]), (''y'', [Str ''a'', Str ''b''])]"
  have d: "distinct (map fst ?nvs)" by simp
  have n: "[] \<notin> set (map snd ?nvs)" by simp
  have v: "map (\<lambda>combination. json_string_sub (Str ''${x}-${y}'') (binding (map fst ?nvs) combination))
              (product_lists (map (\<lambda>nv. map (py_str (\<lambda>v. [])) (snd nv)) ?nvs)) =
           [Str ''1-a'', Str ''1-b'', Str ''2-a'', Str ''2-b'']"
    by code_simp
  from for_each_odometer [OF d n, of "\<lambda>v. []" "Entry [(''k'', Null)] ''k''" "Str ''${x}-${y}''"]
  have "for_each (\<lambda>v. []) (Entry [(''k'', Null)] ''k'')
        (Sequence [Sequence (map spec_entry ?nvs), Str ''${x}-${y}'']) =
       Some (setitem (Entry [(''k'', Null)] ''k'')
         (Sequence [Str ''1-a'', Str ''1-b'', Str ''2-a'', Str ''2-b'']))"
    by (simp only: v)
  then show ?thesis using d n by (simp add: spec_entry_def)
qed

text \<open>
  C2, as stated, fails when a name is declared twice: \<^verbatim>\<open>current_values\<close> is one
  dict updated in place, so with \<^verbatim>\<open>x = [1, 2]\<close> and again \<^verbatim>\<open>x = ["a", "b"]\<close> the
  body \<^verbatim>\<open>$x\<close> yields \<^verbatim>\<open>a, b, 2, b\<close>: neither what a fresh binding built from each
  combination gives when the first declaration wins (\<^verbatim>\<open>1, 1, 2, 2\<close>) nor when the
  last one wins (\<^verbatim>\<open>a, b, a, b\<close>).
\<close>

theorem for_each_duplicate_names_counterexample:
  "for_each (\<lambda>v. []) (Entry [(''k'', Null)] ''k'')
        (Sequence [Sequence [Sequence [Str ''x'', Sequence [Num 1, Num 2]],
                             Sequence [Str ''x'', Sequence [Str ''a'', Str ''b'']]],
                   Str ''$x'']) =
       Some (Entry [(''k'', Sequence [Str ''a'', Str ''b'', Str ''2'', Str ''b''])] ''k'', None)
   \<and> for_each (\<lambda>v. []) (Entry [(''k'', Null)] ''k'')
        (Sequence [Sequence (map spec_entry [(''x'', [Num 1, Num 2]), (''x'', [Str ''a'', Str ''b''])]),
                   Str ''$x'']) \<noteq>
       Some (setitem (Entry [(''k'', Null)] ''k'') (Sequence
         (map (\<lambda>combination. json_string_sub (Str ''$x'') (binding [''x'', ''x''] combination))
              (product_lists [[''1'', ''2''], [''a'', ''b'']]))))
   \<and> for_each (\<lambda>v. []) (Entry [(''k'', Null)] ''k'')
        (Sequence [Sequence (map spec_entry [(''x'', [Num 1, Num 2]), (''x'', [Str ''a'', Str ''b''])]),
                   Str ''$x'']) \<noteq>
       Some (setitem (Entry [(''k'', Null)] ''k'') (Sequence
         (map (\<lambda>combination. json_string_sub (Str ''$x'') (map_of (rev (zip [''x'', ''x''] combination))))
              (product_lists [[''1'', ''2''], [''a'', ''b'']]))))"
  by code_simp

section \<open>Calls and their parents\<close>

subsection \<open>What a call does to a dict parent\<close>

text \<open>
  A registered function, and with it \<^verbatim>\<open>process_fragment\<close>, changes a dict parent
  at its own key only.
\<close>

lemma same_but_refl: "same_but k d d"
  by (simp add: same_but_def list_all2_same)

lemma same_but_trans: "same_but k d d' \<Longrightarrow> same_but k d' d'' \<Longrightarrow> same_but k d d''"
  unfolding same_but_def by (erule list_all2_trans [rotated]) auto

lemma same_but_keys: "same_but k d d' \<Longrightarrow> map fst d' = map fst d"
  unfolding same_but_def by (induction d d' rule: list_all2_induct) simp_all

lemma same_but_map_of: "same_but k d d' \<Longrightarrow> k' \<noteq> k \<Longrightarrow> map_of d' k' = map_of d k'"
  unfolding same_but_def by (induction d d' rule: list_all2_induct) auto

lemma same_but_single: "same_but k [(k, a)] d' \<Longrightarrow> \<exists>w. d' = [(k, w)]"
  unfolding same_but_def by (cases d') (auto simp: list_all2_Cons1)

lemma same_but_dict_set: "k \<in> fst ` set d \<Longrightarrow> same_but k d (dict_set k v d)"
proof (induction d)
  case Nil
  then show ?case by simp
next
  case (Cons e d)
  obtain k' x where e: "e = (k', x)" by (cases e)
  show ?case
  proof (cases "k' = k")
    case True
    then show ?thesis using same_but_refl [of k d] by (simp add: e same_but_def)
  next
    case False
    with Cons e show ?thesis by (auto simp: same_but_def)
  qed
qed

lemma same_but_in_place:
  "same_but k d (map (\<lambda>(k', x). if k' = k then (k', v) else (k', x)) d)"
  by (induction d) (auto simp: same_but_def)

lemma registry_cases:
  "functions_reg cr key = Some f \<Longrightarrow> f = splice \<or> f = for_each cr"
  by (auto simp: functions_reg_def split: if_splits)

text \<open>
  \<^verbatim>\<open>for_each\<close> always returns: it raises and leaves the parent alone, or it is one
  assignment to \<^verbatim>\<open>parent[key]\<close>.
\<close>

lemma for_each_cases:
  "(\<exists>e. for_each cr parent v = Some (parent, Some e))
   \<or> (\<exists>out. for_each cr parent v = Some (setitem parent (Sequence out)))"
proof (cases "\<exists>specs body. v = Sequence [Sequence specs, body]")
  case False
  then have "\<exists>e. for_each cr parent v = Some (parent, Some e)"
    by (auto simp: for_each_def split: json.splits list.splits)
  then show ?thesis ..
next
  case True
  then obtain specs body where v: "v = Sequence [Sequence specs, body]" by blast
  show ?thesis
  proof (cases "parse_specs cr v specs")
    case (Inl e)
    then show ?thesis by (simp add: for_each_def v)
  next
    case (Inr r)
    obtain ns vss where r: "r = (ns, vss)" by (cases r)
    from parse_specs_Inr [of cr v specs ns vss] Inr r
    obtain nvs where nvs: "specs = map spec_entry nvs" by auto
    show ?thesis
    proof (cases "[] \<in> set (map snd nvs)")
      case True
      from for_each_empty_assigns [OF True, of cr parent body] show ?thesis
        by (auto simp: v nvs)
    next
      case False
      then have "\<forall>nv\<in>set nvs. snd nv \<noteq> []" by force
      from for_each_returns [OF this, of cr parent body] show ?thesis
        by (auto simp: v nvs)
    qed
  qed
qed

lemma for_each_Root: "\<exists>e. for_each cr Root v = Some (Root, Some e)"
  using for_each_cases [of cr Root v] by auto

lemma handler_Root:
  "functions_reg cr key = Some f \<Longrightarrow> \<exists>e. f Root v = Some (Root, Some e)"
  using registry_cases [of cr key f] for_each_Root [of cr v] by auto

lemma handler_Entry:
  assumes "functions_reg cr key = Some f" and "k \<in> fst ` set d" and "f (Entry d k) v = Some (p, e)"
  shows "\<exists>d'. p = Entry d' k \<and> same_but k d d'"
proof -
  from registry_cases [OF assms(1)] show ?thesis
  proof
    assume "f = splice"
    with assms(3) have "p = Entry d k" by simp
    then show ?thesis using same_but_refl by blast
  next
    assume f: "f = for_each cr"
    from for_each_cases [of cr "Entry d k" v] show ?thesis
    proof
      assume "\<exists>e. for_each cr (Entry d k) v = Some (Entry d k, Some e)"
      with assms(3) f have "p = Entry d k" by auto
      then show ?thesis using same_but_refl by blast
    next
      assume "\<exists>out. for_each cr (Entry d k) v = Some (setitem (Entry d k) (Sequence out))"
      with assms(3) f obtain out where "p = Entry (dict_set k (Sequence out) d) k" by auto
      then show ?thesis using same_but_dict_set [OF assms(2)] by blast
    qed
  qed
qed

lemma same_but_key_in: "same_but k d d' \<Longrightarrow> k \<in> fst ` set d \<Longrightarrow> k \<in> fst ` set d'"
  using same_but_keys [of k d d'] by (metis list.set_map)

lemma call_functions_Entry:
  "k \<in> fst ` set d \<Longrightarrow> call_functions (functions_reg cr) (Entry d k) n items = Some (p, e) \<Longrightarrow>
     \<exists>d'. p = Entry d' k \<and> same_but k d d'"
proof (induction items arbitrary: d)
  case Nil
  then show ?case using same_but_refl by auto
next
  case (Cons kv items)
  obtain key v where kv: "kv = (key, v)" by (cases kv)
  show ?case
  proof (cases "startswith key ''Turing::'' \<and> n = 1")
    case False
    with Cons.prems kv have
      "(startswith key ''Turing::'' \<and> p = Entry d k) \<or>
       call_functions (functions_reg cr) (Entry d k) n items = Some (p, e)"
      by (auto split: if_splits)
    then show ?thesis using Cons.IH [OF Cons.prems(1)] same_but_refl by blast
  next
    case True
    show ?thesis
    proof (cases "functions_reg cr key")
      case None
      with True Cons.prems kv have "p = Entry d k" by simp
      then show ?thesis using same_but_refl by blast
    next
      case (Some f)
      with True Cons.prems(2) kv obtain p1 e1 where f: "f (Entry d k) v = Some (p1, e1)"
        by (cases "f (Entry d k) v") auto
      from handler_Entry [OF Some Cons.prems(1) f] obtain d1 where
        d1: "p1 = Entry d1 k" "same_but k d d1" by blast
      show ?thesis
      proof (cases e1)
        case (Some err)
        with True Cons.prems(2) kv \<open>functions_reg cr key = Some f\<close> f have "p = p1" by simp
        with d1 show ?thesis by blast
      next
        case None
        with True Cons.prems(2) kv \<open>functions_reg cr key = Some f\<close> f d1
        have c: "call_functions (functions_reg cr) (Entry d1 k) n items = Some (p, e)" by simp
        from same_but_key_in [OF d1(2) Cons.prems(1)] have "k \<in> fst ` set d1" .
        from Cons.IH [OF this c] obtain d' where "p = Entry d' k" "same_but k d1 d'" by blast
        with d1(2) show ?thesis using same_but_trans by blast
      qed
    qed
  qed
qed

lemma process_fragment_Entry:
  assumes "k \<in> fst ` set d"
    and "process_fragment (functions_reg cr) fuel (Entry d k) v = Some ((p, v'), e)"
  shows "\<exists>d'. p = Entry d' k \<and> same_but k d d'"
proof (cases fuel)
  case 0
  with assms(2) show ?thesis by simp
next
  case (Suc n)
  let ?ip = "\<lambda>x. map (\<lambda>(k', y). if k' = k then (k', x) else (k', y)) d"
  have ip: "\<And>x. in_place (Entry d k) x = Entry (?ip x) k" by simp
  have sb: "\<And>x. same_but k d (?ip x)" by (rule same_but_in_place)
  show ?thesis
  proof (cases v)
    case (Mapping kvs)
    show ?thesis
    proof (cases "resolve_passes (process_fragment (functions_reg cr) n) MAX_RECURSION {} kvs")
      case None
      with assms(2) Suc Mapping show ?thesis by simp
    next
      case (Some r)
      obtain kvs' e1 where r: "r = (kvs', e1)" by (cases r)
      show ?thesis
      proof (cases e1)
        case (Some err)
        with assms(2) Suc Mapping \<open>resolve_passes _ _ _ kvs = Some r\<close> r
        have "p = Entry (?ip (Mapping kvs')) k" by simp
        with sb show ?thesis by blast
      next
        case None
        with assms(2) Suc Mapping \<open>resolve_passes _ _ _ kvs = Some r\<close> r
        have c: "call_functions (functions_reg cr) (Entry (?ip (Mapping kvs')) k) (length kvs') kvs' = Some (p, e)"
          by (auto split: option.splits)
        have "k \<in> fst ` set (?ip (Mapping kvs'))"
          using same_but_key_in [OF sb assms(1)] .
        from call_functions_Entry [OF this c] obtain d' where
          "p = Entry d' k" "same_but k (?ip (Mapping kvs')) d'" by blast
        with sb [of "Mapping kvs'"] show ?thesis using same_but_trans by blast
      qed
    qed
  next
    case (Sequence xs)
    with assms(2) Suc obtain xs' where "p = Entry (?ip (Sequence xs')) k"
      by (auto split: option.splits)
    with sb show ?thesis by blast
  qed (use assms(2) Suc same_but_refl in auto)
qed

subsection \<open>A call at the root\<close>

lemma MAX_RECURSION_Suc: "MAX_RECURSION = Suc (Suc 14)"
  by (simp add: MAX_RECURSION_def)

lemma single_entry_two_passes:
  "proc (Entry [(k, a)] k) a = Some ((Entry [(k, w)] k, a'), None) \<Longrightarrow>
     resolve_passes proc (Suc (Suc n)) {} [(k, a)] = Some ([(k, w)], None)"
  "proc (Entry [(k, a)] k) a = Some ((p, a'), Some e) \<Longrightarrow>
     resolve_passes proc (Suc (Suc n)) {} [(k, a)] = Some (slot_entries p [(k, a)], Some e)"
  "proc (Entry [(k, a)] k) a = None \<Longrightarrow> resolve_passes proc (Suc (Suc n)) {} [(k, a)] = None"
  by simp_all

lemma single_entry_passes:
  assumes "proc (Entry [(k, a)] k) a = Some ((Entry [(k, w)] k, a'), None)"
  shows "resolve_passes proc MAX_RECURSION {} [(k, a)] = Some ([(k, w)], None)"
  unfolding MAX_RECURSION_Suc using assms by (rule single_entry_two_passes(1))

lemma single_entry_passes_error:
  assumes "proc (Entry [(k, a)] k) a = Some ((p, a'), Some e)"
  shows "resolve_passes proc MAX_RECURSION {} [(k, a)] = Some (slot_entries p [(k, a)], Some e)"
  unfolding MAX_RECURSION_Suc using assms by (rule single_entry_two_passes(2))

lemma single_entry_passes_None:
  assumes "proc (Entry [(k, a)] k) a = None"
  shows "resolve_passes proc MAX_RECURSION {} [(k, a)] = None"
  unfolding MAX_RECURSION_Suc using assms by (rule single_entry_two_passes(3))

lemma registry_prefix: "functions_reg cr name = Some f \<Longrightarrow> startswith name ''Turing::''"
  by (auto simp: functions_reg_def startswith_def split: if_splits)

lemma root_call_step:
  assumes "functions_reg cr name = Some f"
    and "process_fragment (functions_reg cr) fuel (Entry [(name, a)] name) a = Some ((p, a'), e0)"
  shows "\<exists>w. p = Entry [(name, w)] name \<and>
     process_fragment (functions_reg cr) (Suc fuel) Root (Mapping [(name, a)]) =
       (case e0 of
          Some e \<Rightarrow> Some ((Root, Mapping [(name, w)]), Some e)
        | None \<Rightarrow> (case f Root w of None \<Rightarrow> None | Some (p', e) \<Rightarrow> Some ((p', Mapping [(name, w)]), e)))"
proof -
  have "name \<in> fst ` set [(name, a)]" by simp
  from process_fragment_Entry [OF this assms(2)] obtain d' where
    "p = Entry d' name" "same_but name [(name, a)] d'" by blast
  with same_but_single obtain w where p: "p = Entry [(name, w)] name" by blast
  show ?thesis
  proof (cases e0)
    case (Some e)
    from single_entry_passes_error [of "process_fragment (functions_reg cr) fuel", OF assms(2) [unfolded Some]] p Some
    show ?thesis by simp
  next
    case None
    from single_entry_passes [of "process_fragment (functions_reg cr) fuel", OF assms(2) [unfolded None p]]
    have "resolve_passes (process_fragment (functions_reg cr) fuel) MAX_RECURSION {} [(name, a)] =
        Some ([(name, w)], None)" .
    with None p registry_prefix [OF assms(1)] assms(1) show ?thesis
      by (cases "f Root w") (auto split: option.splits)
  qed
qed

text \<open>
  C10. A document whose root is a mapping with a single entry under a registered name
  never resolves without an exception, whatever the fuel. When the resolution of the
  argument returns, the root call returns with an exception and \<open>Root\<close> for a parent:
  there is no slot to replace. When the argument resolves without an exception,
  \<^verbatim>\<open>Turing::Splice\<close> raises the \<^verbatim>\<open>TypeError\<close> of its \<^verbatim>\<open>else\<close> branch (the parent
  is not a list), and \<^verbatim>\<open>Turing::ForEach\<close> with a well-formed argument raises the
  \<^verbatim>\<open>TypeError\<close> of the assignment \<^verbatim>\<open>parent[key] = ...\<close> on \<^verbatim>\<open>None\<close>.
\<close>

theorem root_call_fails:
  assumes "functions_reg cr name = Some f"
  shows "process_fragment (functions_reg cr) fuel Root (Mapping [(name, a)]) \<noteq> Some (r, None)
   \<and> (process_fragment (functions_reg cr) fuel (Entry [(name, a)] name) a = Some c \<longrightarrow>
        (\<exists>fr e. process_fragment (functions_reg cr) (Suc fuel) Root (Mapping [(name, a)]) =
                  Some ((Root, fr), Some e)))
   \<and> (name = ''Turing::Splice'' \<longrightarrow>
        process_fragment (functions_reg cr) fuel (Entry [(name, a)] name) a =
          Some ((Entry [(name, w)] name, a'), None) \<longrightarrow>
        process_fragment (functions_reg cr) (Suc fuel) Root (Mapping [(name, a)]) =
          Some ((Root, Mapping [(name, w)]), Some (TypeError NotEnoughFormatArguments)))
   \<and> (name \<noteq> ''Turing::Splice'' \<longrightarrow>
        process_fragment (functions_reg cr) fuel (Entry [(name, a)] name) a =
          Some ((Entry [(name, Sequence [Sequence (map spec_entry nvs), body])] name, a'), None) \<longrightarrow>
        process_fragment (functions_reg cr) (Suc fuel) Root (Mapping [(name, a)]) =
          Some ((Root, Mapping [(name, Sequence [Sequence (map spec_entry nvs), body])]),
                Some (TypeError NoItemAssignment)))"
proof (intro conjI impI)
  show "process_fragment (functions_reg cr) fuel Root (Mapping [(name, a)]) \<noteq> Some (r, None)"
  proof (cases fuel)
    case 0
    then show ?thesis by simp
  next
    case (Suc n)
    show ?thesis
    proof (cases "process_fragment (functions_reg cr) n (Entry [(name, a)] name) a")
      case None
      from single_entry_passes_None [of "process_fragment (functions_reg cr) n", OF None] Suc
      show ?thesis by simp
    next
      case (Some c)
      obtain p a' e0 where c: "c = ((p, a'), e0)" by (cases c) auto
      from root_call_step [OF assms Some [unfolded c]] obtain w where
        st: "process_fragment (functions_reg cr) (Suc n) Root (Mapping [(name, a)]) =
          (case e0 of
             Some e \<Rightarrow> Some ((Root, Mapping [(name, w)]), Some e)
           | None \<Rightarrow> (case f Root w of None \<Rightarrow> None
                      | Some (p', e) \<Rightarrow> Some ((p', Mapping [(name, w)]), e)))" by blast
      from handler_Root [OF assms, of w] obtain e where "f Root w = Some (Root, Some e)" ..
      with st show ?thesis unfolding Suc by (cases e0) simp_all
    qed
  qed
next
  assume h: "process_fragment (functions_reg cr) fuel (Entry [(name, a)] name) a = Some c"
  obtain p a' e0 where c: "c = ((p, a'), e0)" by (cases c) auto
  from root_call_step [OF assms h [unfolded c]] obtain w where
    st: "process_fragment (functions_reg cr) (Suc fuel) Root (Mapping [(name, a)]) =
      (case e0 of
         Some e \<Rightarrow> Some ((Root, Mapping [(name, w)]), Some e)
       | None \<Rightarrow> (case f Root w of None \<Rightarrow> None
                  | Some (p', e) \<Rightarrow> Some ((p', Mapping [(name, w)]), e)))" by blast
  from handler_Root [OF assms, of w] obtain e where "f Root w = Some (Root, Some e)" ..
  with st show "\<exists>fr e. process_fragment (functions_reg cr) (Suc fuel) Root (Mapping [(name, a)]) =
                  Some ((Root, fr), Some e)"
    by (cases e0) simp_all
next
  assume n: "name = ''Turing::Splice''"
    and h: "process_fragment (functions_reg cr) fuel (Entry [(name, a)] name) a =
          Some ((Entry [(name, w)] name, a'), None)"
  from assms n have f: "f = splice" by (simp add: functions_reg_def)
  from root_call_step [OF assms h] f
  show "process_fragment (functions_reg cr) (Suc fuel) Root (Mapping [(name, a)]) =
          Some ((Root, Mapping [(name, w)]), Some (TypeError NotEnoughFormatArguments))"
    by simp
next
  let ?arg = "Sequence [Sequence (map spec_entry nvs), body]"
  assume n: "name \<noteq> ''Turing::Splice''"
    and h: "process_fragment (functions_reg cr) fuel (Entry [(name, a)] name) a =
          Some ((Entry [(name, ?arg)] name, a'), None)"
  from assms n have f: "f = for_each cr" by (auto simp: functions_reg_def split: if_splits)
  have "for_each cr Root ?arg = Some (Root, Some (TypeError NoItemAssignment))"
  proof (cases "[] \<in> set (map snd nvs)")
    case True
    from for_each_empty_assigns [OF True, of cr Root body] show ?thesis by simp
  next
    case False
    then have "\<forall>nv\<in>set nvs. snd nv \<noteq> []" by force
    from for_each_returns [OF this, of cr Root body] show ?thesis by auto
  qed
  with root_call_step [OF assms h] f
  show "process_fragment (functions_reg cr) (Suc fuel) Root (Mapping [(name, a)]) =
          Some ((Root, Mapping [(name, ?arg)]), Some (TypeError NoItemAssignment))"
    by simp
qed

theorem root_call_fails_witness:
  "functions_reg (\<lambda>v. []) ''Turing::Splice'' = Some splice
   \<and> process_fragment (functions_reg (\<lambda>v. [])) (Suc 3) Root
        (Mapping [(''Turing::Splice'', Sequence [Str ''c'', Str ''d''])]) =
       Some ((Root, Mapping [(''Turing::Splice'', Sequence [Str ''c'', Str ''d''])]),
             Some (TypeError NotEnoughFormatArguments))
   \<and> functions_reg (\<lambda>v. []) ''Turing::ForEach'' = Some (for_each (\<lambda>v. []))
   \<and> ''Turing::ForEach'' \<noteq> ''Turing::Splice''
   \<and> process_fragment (functions_reg (\<lambda>v. [])) (Suc 6) Root
        (Mapping [(''Turing::ForEach'',
                   Sequence [Sequence [Sequence [Str ''x'', Sequence [Num 1, Num 2]]], Str ''Hello ${x}''])]) =
       Some ((Root, Mapping [(''Turing::ForEach'',
                   Sequence [Sequence [Sequence [Str ''x'', Sequence [Num 1, Num 2]]], Str ''Hello ${x}''])]),
             Some (TypeError NoItemAssignment))"
proof -
  let ?fns = "functions_reg (\<lambda>v. [])"
  let ?s = "Sequence [Str ''c'', Str ''d'']"
  let ?a = "Sequence [Sequence [Sequence [Str ''x'', Sequence [Num 1, Num 2]]], Str ''Hello ${x}'']"
  have r1: "?fns ''Turing::Splice'' = Some splice"
    and r2: "?fns ''Turing::ForEach'' = Some (for_each (\<lambda>v. []))"
    by (simp_all add: functions_reg_def)
  have n: "''Turing::ForEach'' \<noteq> ''Turing::Splice''" by simp
  have h1: "process_fragment ?fns 3 (Entry [(''Turing::Splice'', ?s)] ''Turing::Splice'') ?s =
      Some ((Entry [(''Turing::Splice'', ?s)] ''Turing::Splice'', ?s), None)"
    by code_simp
  have h2: "process_fragment ?fns 6 (Entry [(''Turing::ForEach'', ?a)] ''Turing::ForEach'') ?a =
      Some ((Entry [(''Turing::ForEach'',
               Sequence [Sequence (map spec_entry [(''x'', [Num 1, Num 2])]), Str ''Hello ${x}''])]
              ''Turing::ForEach'', ?a), None)"
    by code_simp
  from root_call_fails [OF r1, of 3 ?s _ _ ?s ?s] h1
  have "process_fragment ?fns (Suc 3) Root (Mapping [(''Turing::Splice'', ?s)]) =
      Some ((Root, Mapping [(''Turing::Splice'', ?s)]), Some (TypeError NotEnoughFormatArguments))"
    by blast
  moreover from root_call_fails [OF r2, of 6 ?a _ _ _ ?a "[(''x'', [Num 1, Num 2])]" "Str ''Hello ${x}''"] h2 n
  have "process_fragment ?fns (Suc 6) Root (Mapping [(''Turing::ForEach'', ?a)]) =
      Some ((Root, Mapping [(''Turing::ForEach'',
               Sequence [Sequence (map spec_entry [(''x'', [Num 1, Num 2])]), Str ''Hello ${x}''])]),
            Some (TypeError NoItemAssignment))"
    by blast
  ultimately show ?thesis using r1 r2 n by (simp add: spec_entry_def)
qed

subsection \<open>The passes over a mapping\<close>

text \<open>
  A pass calls \<open>proc\<close> on keys outside \<^verbatim>\<open>fragment_keys_seen\<close> only, and the set
  only grows: the outcome does not depend on what \<open>proc\<close> would do at a key already
  seen.
\<close>

lemma walk_keys_unvisited_only:
  "(\<forall>d k v. k \<notin> seen \<longrightarrow> proc (Entry d k) v = proc' (Entry d k) v) \<Longrightarrow>
     walk_keys proc ks seen d new = walk_keys proc' ks seen d new"
proof (induction ks arbitrary: seen d new)
  case Nil
  show ?case by simp
next
  case (Cons k ks)
  show ?case
  proof (cases "k \<in> seen")
    case True
    with Cons show ?thesis by simp
  next
    case False
    have ih: "\<And>d' new'. walk_keys proc ks (insert k seen) d' new' = walk_keys proc' ks (insert k seen) d' new'"
      using Cons.prems by (intro Cons.IH) simp
    from Cons.prems False have "\<And>v. proc (Entry d k) v = proc' (Entry d k) v" by simp
    with False ih show ?thesis
      by (simp split: option.split prod.split)
  qed
qed

lemma walk_keys_grows:
  "walk_keys proc ks seen d new = Some ((d', seen', new'), e) \<Longrightarrow> seen \<subseteq> seen'"
proof (induction ks arbitrary: seen d new)
  case Nil
  then show ?case by simp
next
  case (Cons k ks)
  show ?case
  proof (cases "k \<in> seen")
    case True
    with Cons show ?thesis by simp
  next
    case False
    with Cons.prems show ?thesis
      by (auto split: option.splits prod.splits dest!: Cons.IH)
  qed
qed

lemma walk_keys_nothing_new:
  "set ks \<subseteq> seen \<Longrightarrow> walk_keys proc ks seen d new = Some ((d, seen, new), None)"
  by (induction ks) simp_all

lemma walk_keys_new_flag:
  "walk_keys proc ks seen d new = Some ((d', seen', False), None) \<Longrightarrow>
     set ks \<subseteq> seen \<and> d' = d \<and> seen' = seen \<and> \<not> new"
proof (induction ks arbitrary: seen d new)
  case Nil
  then show ?case by simp
next
  case (Cons k ks)
  show ?case
  proof (cases "k \<in> seen")
    case True
    with Cons.prems have "walk_keys proc ks seen d new = Some ((d', seen', False), None)" by simp
    from Cons.IH [OF this] True show ?thesis by simp
  next
    case False
    with Cons.prems have "\<exists>s dd. walk_keys proc ks s dd True = Some ((d', seen', False), None)"
      by (auto split: option.splits prod.splits)
    with Cons.IH show ?thesis by blast
  qed
qed

lemma resolve_passes_unvisited_only:
  "(\<forall>d k v. k \<notin> seen \<longrightarrow> proc (Entry d k) v = proc' (Entry d k) v) \<Longrightarrow>
     resolve_passes proc r seen d = resolve_passes proc' r seen d"
proof (induction r arbitrary: seen d)
  case 0
  show ?case by simp
next
  case (Suc r)
  have w: "walk_keys proc (map fst d) seen d False = walk_keys proc' (map fst d) seen d False"
    using Suc.prems by (rule walk_keys_unvisited_only)
  have "resolve_passes proc r seen' d' = resolve_passes proc' r seen' d'"
    if "walk_keys proc' (map fst d) seen d False = Some ((d', seen', new), e)" for d' seen' new e
  proof -
    from walk_keys_grows [OF that] have "seen \<subseteq> seen'" .
    with Suc.prems have "\<forall>d k v. k \<notin> seen' \<longrightarrow> proc (Entry d k) v = proc' (Entry d k) v" by blast
    then show ?thesis by (rule Suc.IH)
  qed
  then show ?case
    by (simp add: w split: option.split prod.split)
qed

lemma resolve_passes_nothing_new:
  "set (map fst d) \<subseteq> seen \<Longrightarrow> resolve_passes proc (Suc r) seen d = Some (d, None)"
  by (simp add: walk_keys_nothing_new del: set_map)

text \<open>
  \<open>after_passes proc j seen d\<close> is the state after \<open>j\<close> passes that each visited a
  new key and raised nothing. The loop raises its \<^verbatim>\<open>RecursionError\<close> exactly when
  all \<^verbatim>\<open>MAX_RECURSION\<close> passes were of that kind and a key is still unvisited.
\<close>

lemma resolve_passes_after:
  "after_passes proc r seen d = Some (d', seen') \<Longrightarrow>
     resolve_passes proc r seen d =
       Some (d', if set (map fst d') \<subseteq> seen' then None
                  else Some (RecursionError MaxRecursionOnMapping))"
proof (induction r arbitrary: seen d)
  case 0
  then show ?case by auto
next
  case (Suc r)
  from Suc.prems obtain d1 s1 where
    w: "walk_keys proc (map fst d) seen d False = Some ((d1, s1, True), None)"
    and a: "after_passes proc r s1 d1 = Some (d', seen')"
    by (auto split: option.splits prod.splits bool.splits)
  from Suc.IH [OF a] w show ?case by simp
qed

lemma resolve_passes_RecursionError:
  "resolve_passes proc r seen d = Some (d', Some (RecursionError MaxRecursionOnMapping)) \<Longrightarrow>
     (\<exists>seen'. after_passes proc r seen d = Some (d', seen') \<and> \<not> set (map fst d') \<subseteq> seen')
     \<or> (\<exists>j dj sj s' new. j < r \<and> after_passes proc j seen d = Some (dj, sj) \<and>
           walk_keys proc (map fst dj) sj dj False =
             Some ((d', s', new), Some (RecursionError MaxRecursionOnMapping)))"
proof (induction r arbitrary: seen d)
  case 0
  then show ?case by (auto split: if_splits)
next
  case (Suc r)
  from Suc.prems obtain d1 s1 new1 e1 where
    w: "walk_keys proc (map fst d) seen d False = Some ((d1, s1, new1), e1)"
    by (cases "walk_keys proc (map fst d) seen d False") auto
  show ?case
  proof (cases e1)
    case (Some e)
    with Suc.prems w have "d1 = d'" "e = RecursionError MaxRecursionOnMapping" by simp_all
    with w Some have "after_passes proc 0 seen d = Some (d, seen) \<and>
        walk_keys proc (map fst d) seen d False =
          Some ((d', s1, new1), Some (RecursionError MaxRecursionOnMapping))" by simp
    then show ?thesis by blast
  next
    case None
    with Suc.prems w have new1: new1 and
      r: "resolve_passes proc r s1 d1 = Some (d', Some (RecursionError MaxRecursionOnMapping))"
      by (auto split: if_splits)
    from w None new1 have step: "\<And>j. after_passes proc (Suc j) seen d = after_passes proc j s1 d1"
      by simp
    from Suc.IH [OF r] show ?thesis
    proof
      assume "\<exists>seen'. after_passes proc r s1 d1 = Some (d', seen') \<and> \<not> set (map fst d') \<subseteq> seen'"
      then show ?thesis by (simp only: step) blast
    next
      assume "\<exists>j dj sj s' new. j < r \<and> after_passes proc j s1 d1 = Some (dj, sj) \<and>
           walk_keys proc (map fst dj) sj dj False =
             Some ((d', s', new), Some (RecursionError MaxRecursionOnMapping))"
      then obtain j dj sj s' new where "j < r" "after_passes proc j s1 d1 = Some (dj, sj)"
        "walk_keys proc (map fst dj) sj dj False =
             Some ((d', s', new), Some (RecursionError MaxRecursionOnMapping))" by blast
      then have "Suc j < Suc r \<and> after_passes proc (Suc j) seen d = Some (dj, sj) \<and>
        walk_keys proc (map fst dj) sj dj False =
             Some ((d', s', new), Some (RecursionError MaxRecursionOnMapping))"
        by (simp only: step) simp
      then show ?thesis by blast
    qed
  qed
qed

lemma walk_keys_records:
  "walk_keys proc ks seen d new = Some ((d', seen', new'), None) \<Longrightarrow>
     seen' = seen \<union> set ks \<and> (new' \<longleftrightarrow> new \<or> \<not> set ks \<subseteq> seen)"
proof (induction ks arbitrary: seen d new)
  case Nil
  then show ?case by simp
next
  case (Cons k ks)
  show ?case
  proof (cases "k \<in> seen")
    case True
    with Cons.prems have "walk_keys proc ks seen d new = Some ((d', seen', new'), None)" by simp
    from Cons.IH [OF this] True show ?thesis by auto
  next
    case False
    with Cons.prems obtain dd where
      "walk_keys proc ks (insert k seen) dd True = Some ((d', seen', new'), None)"
      by (auto split: option.splits prod.splits)
    from Cons.IH [OF this] False show ?thesis by auto
  qed
qed

lemma walk_keys_step:
  "k \<notin> seen \<Longrightarrow> map_of d k = Some c \<Longrightarrow>
     walk_keys proc (k # ks) seen d new =
       (case proc (Entry d k) c of
          None \<Rightarrow> None
        | Some ((p, c'), Some e) \<Rightarrow> Some ((slot_entries p d, insert k seen, True), Some e)
        | Some ((p, c'), None) \<Rightarrow> walk_keys proc ks (insert k seen) (slot_entries p d) True)"
  by simp

lemma resolve_passes_continue:
  "after_passes proc j seen d = Some (dj, sj) \<Longrightarrow>
     resolve_passes proc (j + r) seen d = resolve_passes proc r sj dj"
proof (induction j arbitrary: seen d)
  case 0
  then show ?case by simp
next
  case (Suc j)
  from Suc.prems obtain d1 s1 where
    w: "walk_keys proc (map fst d) seen d False = Some ((d1, s1, True), None)"
    and a: "after_passes proc j s1 d1 = Some (dj, sj)"
    by (auto split: option.splits prod.splits bool.splits)
  from Suc.IH [OF a] w show ?case by simp
qed

lemma resolve_passes_early:
  assumes "j < n" and "after_passes proc j seen d = Some (dj, sj)"
  shows "resolve_passes proc n seen d =
     (case walk_keys proc (map fst dj) sj dj False of
        None \<Rightarrow> None
      | Some ((d', s', new), Some e) \<Rightarrow> Some (d', Some e)
      | Some ((d', s', new), None) \<Rightarrow>
          if \<not> new then Some (d', None) else resolve_passes proc (n - Suc j) s' d')"
proof -
  from assms(1) have n: "n = j + Suc (n - Suc j)" by simp
  have "resolve_passes proc n seen d = resolve_passes proc (Suc (n - Suc j)) sj dj"
    by (subst n) (rule resolve_passes_continue [OF assms(2)])
  then show ?thesis by simp
qed

lemma resolve_passes_converged:
  assumes "j < n" and "after_passes proc j seen d = Some (dj, sj)" and "set (map fst dj) \<subseteq> sj"
  shows "resolve_passes proc n seen d = Some (dj, None)"
  using resolve_passes_early [OF assms(1,2)] walk_keys_nothing_new [OF assms(3), of proc dj False]
  by simp

lemma resolve_passes_raised:
  assumes "j < n" and "after_passes proc j seen d = Some (dj, sj)"
    and "walk_keys proc (map fst dj) sj dj False = Some ((d', s', new), Some e)"
  shows "resolve_passes proc n seen d = Some (d', Some e)"
  using resolve_passes_early [OF assms(1,2)] assms(3) by simp

lemma resolve_passes_no_return:
  assumes "j < n" and "after_passes proc j seen d = Some (dj, sj)"
    and "walk_keys proc (map fst dj) sj dj False = None"
  shows "resolve_passes proc n seen d = None"
  using resolve_passes_early [OF assms(1,2)] assms(3) by simp

text \<open>
  A child resolution that only replaces the value of its own key: every child is resolved
  once, in the first pass, and the second pass ends the loop.
\<close>

lemma in_place_absent:
  "k \<notin> fst ` set l \<Longrightarrow> map (\<lambda>(k', x). if k' = k then (k', y) else (k', x)) l = l"
  by (induction l) auto

lemma in_place_distinct:
  "distinct (map fst (done @ (k, v) # todo)) \<Longrightarrow>
     map (\<lambda>(k', x). if k' = k then (k', y) else (k', x)) (done @ (k, v) # todo) =
       done @ (k, y) # todo"
  by (simp add: in_place_absent)

lemma map_of_distinct_mid:
  "distinct (map fst (done @ (k, v) # todo)) \<Longrightarrow> map_of (done @ (k, v) # todo) k = Some v"
proof -
  assume "distinct (map fst (done @ (k, v) # todo))"
  then have "k \<notin> fst ` set done" by auto
  then have "map_of done k = None" by (simp add: map_of_eq_None_iff)
  then show ?thesis by (simp add: map_add_def)
qed

lemma walk_keys_local:
  assumes local: "\<And>d k v. proc (Entry d k) v =
      Some ((Entry (map (\<lambda>(k', x). if k' = k then (k', g k v) else (k', x)) d) k, h k v), None)"
  shows "distinct (map fst (done @ todo)) \<Longrightarrow> fst ` set todo \<inter> seen = {} \<Longrightarrow>
     walk_keys proc (map fst todo) seen (done @ todo) new =
       Some ((done @ map (\<lambda>(k, v). (k, g k v)) todo, seen \<union> fst ` set todo, new \<or> todo \<noteq> []), None)"
proof (induction todo arbitrary: "done" seen new)
  case Nil
  then show ?case by simp
next
  case (Cons kv todo)
  obtain k v where kv: "kv = (k, v)" by (cases kv)
  from Cons.prems kv have k: "k \<notin> seen" by auto
  from Cons.prems(1) kv have m: "map_of (done @ (k, v) # todo) k = Some v"
    by (intro map_of_distinct_mid) simp
  from Cons.prems(1) kv have ip:
    "map (\<lambda>(k', x). if k' = k then (k', g k v) else (k', x)) (done @ (k, v) # todo) =
       done @ (k, g k v) # todo"
    by (intro in_place_distinct) simp
  from Cons.prems kv have d': "distinct (map fst ((done @ [(k, g k v)]) @ todo))" by auto
  from Cons.prems kv have s': "fst ` set todo \<inter> insert k seen = {}" by auto
  from Cons.IH [OF d' s', of True]
  have "walk_keys proc (map fst todo) (insert k seen) (done @ (k, g k v) # todo) True =
       Some ((done @ (k, g k v) # map (\<lambda>(k, v). (k, g k v)) todo,
              insert k seen \<union> fst ` set todo, True), None)" by simp
  with k m ip show ?case
    by (simp add: kv local del: map_append map_of_append)
qed

lemma resolve_passes_local:
  assumes "distinct (map fst d)"
    and "\<And>d k v. proc (Entry d k) v =
      Some ((Entry (map (\<lambda>(k', x). if k' = k then (k', g k v) else (k', x)) d) k, h k v), None)"
  shows "resolve_passes proc (Suc (Suc r)) {} d = Some (map (\<lambda>(k, v). (k, g k v)) d, None)"
proof -
  let ?d' = "map (\<lambda>(k, v). (k, g k v)) d"
  from walk_keys_local [of proc g h "[]" d "{}" False, OF assms(2)] assms(1)
  have w: "walk_keys proc (map fst d) {} d False = Some ((?d', fst ` set d, d \<noteq> []), None)"
    by simp
  have k: "map fst ?d' = map fst d" by (simp add: comp_def case_prod_unfold)
  show ?thesis
  proof (cases "d = []")
    case True
    then show ?thesis by simp
  next
    case False
    have "set (map fst ?d') \<subseteq> fst ` set d" by (simp only: k) simp
    from resolve_passes_nothing_new [OF this, of proc r]
    have "resolve_passes proc (Suc r) (fst ` set d) ?d' = Some (?d', None)" .
    with w False show ?thesis by simp
  qed
qed

lemma process_fragment_passes_raise:
  "resolve_passes (process_fragment fns fuel) MAX_RECURSION {} kvs = Some (kvs', Some e) \<Longrightarrow>
     process_fragment fns (Suc fuel) parent (Mapping kvs) =
       Some ((in_place parent (Mapping kvs'), Mapping kvs'), Some e)"
  by simp


lemma resolve_passes_local_MAX:
  assumes "distinct (map fst d)"
    and "\<And>d k v. proc (Entry d k) v =
      Some ((Entry (map (\<lambda>(k', x). if k' = k then (k', g k v) else (k', x)) d) k, h k v), None)"
  shows "resolve_passes proc MAX_RECURSION {} d = Some (map (\<lambda>(k, v). (k, g k v)) d, None)"
  unfolding MAX_RECURSION_Suc by (rule resolve_passes_local [OF assms])

text \<open>
  C4. For any way \<open>proc\<close> of resolving a child (so whatever the registered
  functions do to the mapping): the passes resolve only keys that no earlier pass has
  visited; a pass that finds every key visited ends the loop without an exception; after
  \<^verbatim>\<open>MAX_RECURSION\<close> = 16 passes that each visited a new key there is no further pass,
  and the loop raises \<^verbatim>\<open>RecursionError\<close> if and only if a key is then unvisited. The
  only other way for this \<^verbatim>\<open>RecursionError\<close> to leave the loop is that the resolution
  of a child raised it in one of the passes.

  A pass that raises nothing has visited every key of its snapshot and recorded it in
  \<^verbatim>\<open>fragment_keys_seen\<close>, and reports a new key exactly when one of them was unvisited.
  An unvisited key is resolved by one call of \<open>proc\<close> on its entry of the live mapping;
  an exception of that call ends the pass with the key recorded. When fewer than 16
  passes have each visited a new key, the loop started with no key visited returns the
  mapping without an exception if every key is now visited, returns the exception a child
  raises in the next pass, and does not return if a child does not. When every child
  resolution only replaces the value under its own key, the loop returns the mapping with
  every child resolved once. The walker's call on a mapping raises what the loop raises.
\<close>

theorem bounded_passes:
  "((\<forall>d k v. k \<notin> seen \<longrightarrow> proc (Entry d k) v = proc' (Entry d k) v) \<longrightarrow>
      resolve_passes proc r seen d = resolve_passes proc' r seen d)
   \<and> (set (map fst d) \<subseteq> seen \<longrightarrow>
        walk_keys proc (map fst d) seen d False = Some ((d, seen, False), None)
        \<and> resolve_passes proc (Suc r) seen d = Some (d, None))
   \<and> (after_passes proc MAX_RECURSION {} d = Some (d', seen') \<longrightarrow>
        resolve_passes proc MAX_RECURSION {} d =
          Some (d', if set (map fst d') \<subseteq> seen' then None
                     else Some (RecursionError MaxRecursionOnMapping)))
   \<and> (resolve_passes proc MAX_RECURSION {} d = Some (d', Some (RecursionError MaxRecursionOnMapping)) \<longrightarrow>
        (\<exists>seen'. after_passes proc MAX_RECURSION {} d = Some (d', seen') \<and> \<not> set (map fst d') \<subseteq> seen')
        \<or> (\<exists>j dj sj s' new. j < MAX_RECURSION \<and> after_passes proc j {} d = Some (dj, sj) \<and>
              walk_keys proc (map fst dj) sj dj False =
                Some ((d', s', new), Some (RecursionError MaxRecursionOnMapping))))
   \<and> (walk_keys proc ks seen d new = Some ((d1, s1, n1), None) \<longrightarrow>
        s1 = seen \<union> set ks \<and> (n1 \<longleftrightarrow> new \<or> \<not> set ks \<subseteq> seen))
   \<and> (k \<notin> seen \<and> map_of d k = Some c \<longrightarrow>
        walk_keys proc (k # ks) seen d new =
          (case proc (Entry d k) c of
             None \<Rightarrow> None
           | Some ((p, c'), Some e) \<Rightarrow> Some ((slot_entries p d, insert k seen, True), Some e)
           | Some ((p, c'), None) \<Rightarrow> walk_keys proc ks (insert k seen) (slot_entries p d) True))
   \<and> (j < MAX_RECURSION \<and> after_passes proc j {} d = Some (dj, sj) \<longrightarrow>
        (set (map fst dj) \<subseteq> sj \<longrightarrow> resolve_passes proc MAX_RECURSION {} d = Some (dj, None))
        \<and> (walk_keys proc (map fst dj) sj dj False = Some ((d2, s2, n2), Some e) \<longrightarrow>
             resolve_passes proc MAX_RECURSION {} d = Some (d2, Some e))
        \<and> (walk_keys proc (map fst dj) sj dj False = None \<longrightarrow>
             resolve_passes proc MAX_RECURSION {} d = None))
   \<and> (distinct (map fst d)
        \<and> (\<forall>d k v. proc (Entry d k) v =
              Some ((Entry (map (\<lambda>(k', x). if k' = k then (k', g k v) else (k', x)) d) k, h k v),
                    None)) \<longrightarrow>
        resolve_passes proc MAX_RECURSION {} d = Some (map (\<lambda>(k, v). (k, g k v)) d, None))
   \<and> (resolve_passes (process_fragment fns fuel) MAX_RECURSION {} d = Some (d', Some e) \<longrightarrow>
        process_fragment fns (Suc fuel) parent (Mapping d) =
          Some ((in_place parent (Mapping d'), Mapping d'), Some e))"
proof -
  have c1: "(\<forall>d k v. k \<notin> seen \<longrightarrow> proc (Entry d k) v = proc' (Entry d k) v) \<longrightarrow>
      resolve_passes proc r seen d = resolve_passes proc' r seen d"
    using resolve_passes_unvisited_only [of seen proc proc' r d] by blast
  have c2: "set (map fst d) \<subseteq> seen \<longrightarrow>
        walk_keys proc (map fst d) seen d False = Some ((d, seen, False), None)
        \<and> resolve_passes proc (Suc r) seen d = Some (d, None)"
    using resolve_passes_nothing_new [of d seen proc r]
      walk_keys_nothing_new [of "map fst d" seen proc d False] by blast
  have c3: "after_passes proc MAX_RECURSION {} d = Some (d', seen') \<longrightarrow>
        resolve_passes proc MAX_RECURSION {} d =
          Some (d', if set (map fst d') \<subseteq> seen' then None
                     else Some (RecursionError MaxRecursionOnMapping))"
    using resolve_passes_after [of proc MAX_RECURSION "{}" d d' seen'] by blast
  have c4: "resolve_passes proc MAX_RECURSION {} d = Some (d', Some (RecursionError MaxRecursionOnMapping)) \<longrightarrow>
        (\<exists>seen'. after_passes proc MAX_RECURSION {} d = Some (d', seen') \<and> \<not> set (map fst d') \<subseteq> seen')
        \<or> (\<exists>j dj sj s' new. j < MAX_RECURSION \<and> after_passes proc j {} d = Some (dj, sj) \<and>
              walk_keys proc (map fst dj) sj dj False =
                Some ((d', s', new), Some (RecursionError MaxRecursionOnMapping)))"
    using resolve_passes_RecursionError [of proc MAX_RECURSION "{}" d d'] by blast
  have c5: "walk_keys proc ks seen d new = Some ((d1, s1, n1), None) \<longrightarrow>
        s1 = seen \<union> set ks \<and> (n1 \<longleftrightarrow> new \<or> \<not> set ks \<subseteq> seen)"
    using walk_keys_records [of proc ks seen d new d1 s1 n1] by blast
  have c6: "k \<notin> seen \<and> map_of d k = Some c \<longrightarrow>
        walk_keys proc (k # ks) seen d new =
          (case proc (Entry d k) c of
             None \<Rightarrow> None
           | Some ((p, c'), Some e) \<Rightarrow> Some ((slot_entries p d, insert k seen, True), Some e)
           | Some ((p, c'), None) \<Rightarrow> walk_keys proc ks (insert k seen) (slot_entries p d) True)"
    using walk_keys_step [of k seen d c proc ks new] by blast
  have c7: "j < MAX_RECURSION \<and> after_passes proc j {} d = Some (dj, sj) \<longrightarrow>
        (set (map fst dj) \<subseteq> sj \<longrightarrow> resolve_passes proc MAX_RECURSION {} d = Some (dj, None))
        \<and> (walk_keys proc (map fst dj) sj dj False = Some ((d2, s2, n2), Some e) \<longrightarrow>
             resolve_passes proc MAX_RECURSION {} d = Some (d2, Some e))
        \<and> (walk_keys proc (map fst dj) sj dj False = None \<longrightarrow>
             resolve_passes proc MAX_RECURSION {} d = None)"
    using resolve_passes_converged [of j MAX_RECURSION proc "{}" d dj sj]
      resolve_passes_raised [of j MAX_RECURSION proc "{}" d dj sj d2 s2 n2 e]
      resolve_passes_no_return [of j MAX_RECURSION proc "{}" d dj sj] by blast
  have c8: "distinct (map fst d)
        \<and> (\<forall>d k v. proc (Entry d k) v =
              Some ((Entry (map (\<lambda>(k', x). if k' = k then (k', g k v) else (k', x)) d) k, h k v),
                    None)) \<longrightarrow>
        resolve_passes proc MAX_RECURSION {} d = Some (map (\<lambda>(k, v). (k, g k v)) d, None)"
    using resolve_passes_local_MAX [of d proc g h] by blast
  have c9: "resolve_passes (process_fragment fns fuel) MAX_RECURSION {} d = Some (d', Some e) \<longrightarrow>
        process_fragment fns (Suc fuel) parent (Mapping d) =
          Some ((in_place parent (Mapping d'), Mapping d'), Some e)"
    using process_fragment_passes_raise [of fns fuel d d' e parent] by blast
  from c1 c2 c3 c4 c5 c6 c7 c8 c9 show ?thesis by (intro conjI)
qed

theorem bounded_passes_witness:
  "resolve_passes (\<lambda>s v. case s of Entry d k \<Rightarrow> Some ((Entry (d @ [(k @ ''+'', Null)]) k, v), None)
                   | _ \<Rightarrow> Some ((s, v), None)) 3 {''a''} [(''a'', Null), (''b'', Null)] =
     resolve_passes (\<lambda>s v. case s of Entry d k \<Rightarrow> if k = ''a'' then None
                                     else Some ((Entry (d @ [(k @ ''+'', Null)]) k, v), None)
                   | _ \<Rightarrow> Some ((s, v), None)) 3 {''a''} [(''a'', Null), (''b'', Null)]
   \<and> resolve_passes (\<lambda>s v. case s of Entry d k \<Rightarrow> Some ((Entry (d @ [(k @ ''+'', Null)]) k, v), None)
                   | _ \<Rightarrow> Some ((s, v), None)) (Suc 15) {''a''} [(''a'', Null)] = Some ([(''a'', Null)], None)
   \<and> after_passes (\<lambda>s v. case s of Entry d k \<Rightarrow> Some ((Entry (d @ [(k @ ''+'', Null)]) k, v), None)
                   | _ \<Rightarrow> Some ((s, v), None)) MAX_RECURSION {} [(''a'', Null)] =
       Some ([(''a'', Null),
             (''a+'', Null),
             (''a++'', Null),
             (''a+++'', Null),
             (''a++++'', Null),
             (''a+++++'', Null),
             (''a++++++'', Null),
             (''a+++++++'', Null),
             (''a++++++++'', Null),
             (''a+++++++++'', Null),
             (''a++++++++++'', Null),
             (''a+++++++++++'', Null),
             (''a++++++++++++'', Null),
             (''a+++++++++++++'', Null),
             (''a++++++++++++++'', Null),
             (''a+++++++++++++++'', Null),
             (''a++++++++++++++++'', Null)],
             {''a'', ''a+'', ''a++'', ''a+++'', ''a++++'', ''a+++++'', ''a++++++'', ''a+++++++'', ''a++++++++'', ''a+++++++++'', ''a++++++++++'', ''a+++++++++++'', ''a++++++++++++'', ''a+++++++++++++'', ''a++++++++++++++'', ''a+++++++++++++++''})
   \<and> resolve_passes (\<lambda>s v. case s of Entry d k \<Rightarrow> Some ((Entry (d @ [(k @ ''+'', Null)]) k, v), None)
                   | _ \<Rightarrow> Some ((s, v), None)) MAX_RECURSION {} [(''a'', Null)] =
       Some ([(''a'', Null),
             (''a+'', Null),
             (''a++'', Null),
             (''a+++'', Null),
             (''a++++'', Null),
             (''a+++++'', Null),
             (''a++++++'', Null),
             (''a+++++++'', Null),
             (''a++++++++'', Null),
             (''a+++++++++'', Null),
             (''a++++++++++'', Null),
             (''a+++++++++++'', Null),
             (''a++++++++++++'', Null),
             (''a+++++++++++++'', Null),
             (''a++++++++++++++'', Null),
             (''a+++++++++++++++'', Null),
             (''a++++++++++++++++'', Null)],
             Some (RecursionError MaxRecursionOnMapping))
   \<and> walk_keys (\<lambda>s v. case s of Entry d k \<Rightarrow> if k = ''a'' then Some ((Entry (d @ [(''b'', Null)]) k, v), None)
                                     else Some ((s, v), None)
                   | _ \<Rightarrow> Some ((s, v), None)) [''a''] {} [(''a'', Null)] False =
       Some (([(''a'', Null), (''b'', Null)], {''a''}, True), None)
   \<and> after_passes (\<lambda>s v. case s of Entry d k \<Rightarrow> if k = ''a'' then Some ((Entry (d @ [(''b'', Null)]) k, v), None)
                                     else Some ((s, v), None)
                   | _ \<Rightarrow> Some ((s, v), None)) 2 {} [(''a'', Null)] = Some ([(''a'', Null), (''b'', Null)], {''b'', ''a''})
   \<and> resolve_passes (\<lambda>s v. case s of Entry d k \<Rightarrow> if k = ''a'' then Some ((Entry (d @ [(''b'', Null)]) k, v), None)
                                     else Some ((s, v), None)
                   | _ \<Rightarrow> Some ((s, v), None)) MAX_RECURSION {} [(''a'', Null)] = Some ([(''a'', Null), (''b'', Null)], None)
   \<and> resolve_passes (\<lambda>s v. case s of Entry d k \<Rightarrow> if k = ''a'' then Some ((Entry (d @ [(''b'', Null)]) k, v), None)
                                     else Some ((s, v), Some (ValueError (UnknownFunction k)))
                   | _ \<Rightarrow> Some ((s, v), None)) MAX_RECURSION {} [(''a'', Null)] =
       Some ([(''a'', Null), (''b'', Null)], Some (ValueError (UnknownFunction ''b'')))
   \<and> resolve_passes (\<lambda>s v. case s of Entry d k \<Rightarrow> if k = ''a'' then Some ((Entry (d @ [(''b'', Null)]) k, v), None)
                                     else None
                   | _ \<Rightarrow> Some ((s, v), None)) MAX_RECURSION {} [(''a'', Null)] = None
   \<and> resolve_passes (\<lambda>s v. case s of Entry d k \<Rightarrow>
                     Some ((Entry (map (\<lambda>(k', x). if k' = k then (k', Sequence [v]) else (k', x)) d) k,
                            Sequence [v]), None)
                   | _ \<Rightarrow> Some ((s, v), None)) MAX_RECURSION {} [(''a'', Null)] = Some ([(''a'', Sequence [Null])], None)
   \<and> resolve_passes (\<lambda>s v. case s of Entry d k \<Rightarrow>
                     Some ((Entry (map (\<lambda>(k', x). if k' = k then (k', Sequence [v]) else (k', x)) d) k,
                            Sequence [v]), None)
                   | _ \<Rightarrow> Some ((s, v), None)) MAX_RECURSION {} [(''a'', Null), (''b'', Num 1)] =
       Some ([(''a'', Sequence [Null]), (''b'', Sequence [Num 1])], None)
   \<and> process_fragment (\<lambda>name. if name = ''Turing::Grow''
                 then Some (\<lambda>parent v. case parent of
                        Entry d k \<Rightarrow> Some (Entry (d @ [(k @ ''+'', Mapping [(''Turing::Grow'', Null)])]) k, None)
                      | _ \<Rightarrow> Some (parent, None))
                 else None) (Suc 2) Root (Mapping [(''a'', Mapping [(''Turing::Grow'', Null)])]) =
       Some ((Root, Mapping [(''a'', Mapping [(''Turing::Grow'', Null)]),
             (''a+'', Mapping [(''Turing::Grow'', Null)]),
             (''a++'', Mapping [(''Turing::Grow'', Null)]),
             (''a+++'', Mapping [(''Turing::Grow'', Null)]),
             (''a++++'', Mapping [(''Turing::Grow'', Null)]),
             (''a+++++'', Mapping [(''Turing::Grow'', Null)]),
             (''a++++++'', Mapping [(''Turing::Grow'', Null)]),
             (''a+++++++'', Mapping [(''Turing::Grow'', Null)]),
             (''a++++++++'', Mapping [(''Turing::Grow'', Null)]),
             (''a+++++++++'', Mapping [(''Turing::Grow'', Null)]),
             (''a++++++++++'', Mapping [(''Turing::Grow'', Null)]),
             (''a+++++++++++'', Mapping [(''Turing::Grow'', Null)]),
             (''a++++++++++++'', Mapping [(''Turing::Grow'', Null)]),
             (''a+++++++++++++'', Mapping [(''Turing::Grow'', Null)]),
             (''a++++++++++++++'', Mapping [(''Turing::Grow'', Null)]),
             (''a+++++++++++++++'', Mapping [(''Turing::Grow'', Null)]),
             (''a++++++++++++++++'', Mapping [(''Turing::Grow'', Null)])]),
             Some (RecursionError MaxRecursionOnMapping))
   \<and> handler (functions_reg (\<lambda>v. [])) 5 (Mapping [(''a'', Str ''x'')]) =
       Some (Mapping [(''a'', Str ''x'')], ''success'')
   \<and> handler (functions_reg (\<lambda>v. [])) 9
       (Mapping [(''a'', Mapping [(''Turing::ForEach'',
            Sequence [Sequence [Sequence [Str ''v'', Sequence [Num 1, Num 2]]], Str ''n$v''])]),
                (''b'', Sequence [Mapping [(''Turing::Splice'', Sequence [Str ''x'', Str ''y''])]])]) =
       Some (Mapping [(''a'', Sequence [Str ''n1'', Str ''n2'']), (''b'', Sequence [Str ''x'', Str ''y''])],
             ''success'')"
proof -
  let ?g = "(\<lambda>s v. case s of Entry d k \<Rightarrow> Some ((Entry (d @ [(k @ ''+'', Null)]) k, v), None)
                   | _ \<Rightarrow> Some ((s, v), None))"
  let ?g' = "(\<lambda>s v. case s of Entry d k \<Rightarrow> if k = ''a'' then None
                                     else Some ((Entry (d @ [(k @ ''+'', Null)]) k, v), None)
                   | _ \<Rightarrow> Some ((s, v), None))"
  let ?g1 = "(\<lambda>s v. case s of Entry d k \<Rightarrow> if k = ''a'' then Some ((Entry (d @ [(''b'', Null)]) k, v), None)
                                     else Some ((s, v), None)
                   | _ \<Rightarrow> Some ((s, v), None))"
  let ?g2 = "(\<lambda>s v. case s of Entry d k \<Rightarrow> if k = ''a'' then Some ((Entry (d @ [(''b'', Null)]) k, v), None)
                                     else Some ((s, v), Some (ValueError (UnknownFunction k)))
                   | _ \<Rightarrow> Some ((s, v), None))"
  let ?g3 = "(\<lambda>s v. case s of Entry d k \<Rightarrow> if k = ''a'' then Some ((Entry (d @ [(''b'', Null)]) k, v), None)
                                     else None
                   | _ \<Rightarrow> Some ((s, v), None))"
  let ?w = "(\<lambda>s v. case s of Entry d k \<Rightarrow>
                     Some ((Entry (map (\<lambda>(k', x). if k' = k then (k', Sequence [v]) else (k', x)) d) k,
                            Sequence [v]), None)
                   | _ \<Rightarrow> Some ((s, v), None))"
  let ?G = "(\<lambda>name. if name = ''Turing::Grow''
                 then Some (\<lambda>parent v. case parent of
                        Entry d k \<Rightarrow> Some (Entry (d @ [(k @ ''+'', Mapping [(''Turing::Grow'', Null)])]) k, None)
                      | _ \<Rightarrow> Some (parent, None))
                 else None)"
  let ?D = "[(''a'', Null),
             (''a+'', Null),
             (''a++'', Null),
             (''a+++'', Null),
             (''a++++'', Null),
             (''a+++++'', Null),
             (''a++++++'', Null),
             (''a+++++++'', Null),
             (''a++++++++'', Null),
             (''a+++++++++'', Null),
             (''a++++++++++'', Null),
             (''a+++++++++++'', Null),
             (''a++++++++++++'', Null),
             (''a+++++++++++++'', Null),
             (''a++++++++++++++'', Null),
             (''a+++++++++++++++'', Null),
             (''a++++++++++++++++'', Null)]"
  let ?S = "{''a'', ''a+'', ''a++'', ''a+++'', ''a++++'', ''a+++++'', ''a++++++'', ''a+++++++'', ''a++++++++'', ''a+++++++++'', ''a++++++++++'', ''a+++++++++++'', ''a++++++++++++'', ''a+++++++++++++'', ''a++++++++++++++'', ''a+++++++++++++++''}"
  let ?GD = "[(''a'', Mapping [(''Turing::Grow'', Null)]),
             (''a+'', Mapping [(''Turing::Grow'', Null)]),
             (''a++'', Mapping [(''Turing::Grow'', Null)]),
             (''a+++'', Mapping [(''Turing::Grow'', Null)]),
             (''a++++'', Mapping [(''Turing::Grow'', Null)]),
             (''a+++++'', Mapping [(''Turing::Grow'', Null)]),
             (''a++++++'', Mapping [(''Turing::Grow'', Null)]),
             (''a+++++++'', Mapping [(''Turing::Grow'', Null)]),
             (''a++++++++'', Mapping [(''Turing::Grow'', Null)]),
             (''a+++++++++'', Mapping [(''Turing::Grow'', Null)]),
             (''a++++++++++'', Mapping [(''Turing::Grow'', Null)]),
             (''a+++++++++++'', Mapping [(''Turing::Grow'', Null)]),
             (''a++++++++++++'', Mapping [(''Turing::Grow'', Null)]),
             (''a+++++++++++++'', Mapping [(''Turing::Grow'', Null)]),
             (''a++++++++++++++'', Mapping [(''Turing::Grow'', Null)]),
             (''a+++++++++++++++'', Mapping [(''Turing::Grow'', Null)]),
             (''a++++++++++++++++'', Mapping [(''Turing::Grow'', Null)])]"
  let ?AB = "[(''a'', Null), (''b'', Null)]"
  have e: "\<forall>d k v. k \<notin> {''a''} \<longrightarrow> ?g (Entry d k) v = ?g' (Entry d k) v" by simp
  have v: "set (map fst [(''a'', Null)]) \<subseteq> {''a''}" by simp
  have a: "after_passes ?g MAX_RECURSION {} [(''a'', Null)] = Some (?D, ?S)" by code_simp
  have n: "\<not> set (map fst ?D) \<subseteq> ?S" by simp
  from bounded_passes [where seen = "{''a''}" and proc = ?g and proc' = ?g' and r = 3
      and d = "[(''a'', Null), (''b'', Null)]", THEN conjunct1] e
  have o1: "resolve_passes ?g 3 {''a''} [(''a'', Null), (''b'', Null)] =
     resolve_passes ?g' 3 {''a''} [(''a'', Null), (''b'', Null)]" by (rule mp)
  from bounded_passes [where seen = "{''a''}" and proc = ?g and r = 15 and d = "[(''a'', Null)]", THEN conjunct2, THEN conjunct1] v
  have o2: "resolve_passes ?g (Suc 15) {''a''} [(''a'', Null)] = Some ([(''a'', Null)], None)" by blast
  from bounded_passes [where proc = ?g and d = "[(''a'', Null)]" and d' = ?D and seen' = ?S, THEN conjunct2, THEN conjunct2, THEN conjunct1] a n
  have o4: "resolve_passes ?g MAX_RECURSION {} [(''a'', Null)] =
       Some (?D, Some (RecursionError MaxRecursionOnMapping))" by (simp only: if_False)
  have k: "''a'' \<notin> {} \<and> map_of [(''a'', Null)] ''a'' = Some Null" by simp
  from bounded_passes [where proc = ?g1 and seen = "{}" and d = "[(''a'', Null)]" and k = "''a''"
      and c = Null and ks = "[]" and new = False, THEN conjunct2, THEN conjunct2, THEN conjunct2, THEN conjunct2, THEN conjunct2, THEN conjunct1, THEN mp, OF k]
  have n1: "walk_keys ?g1 [''a''] {} [(''a'', Null)] False = Some ((?AB, {''a''}, True), None)" by simp
  have n2: "after_passes ?g1 2 {} [(''a'', Null)] = Some (?AB, {''b'', ''a''})" by code_simp
  have j2: "2 < MAX_RECURSION" by (simp add: MAX_RECURSION_def)
  have s2: "set (map fst ?AB) \<subseteq> {''b'', ''a''}" by simp
  from bounded_passes [where proc = ?g1 and j = 2 and d = "[(''a'', Null)]" and dj = ?AB
      and sj = "{''b'', ''a''}", THEN conjunct2, THEN conjunct2, THEN conjunct2, THEN conjunct2, THEN conjunct2, THEN conjunct2, THEN conjunct1] j2 n2 s2
  have n3: "resolve_passes ?g1 MAX_RECURSION {} [(''a'', Null)] = Some (?AB, None)" by blast
  have j1: "1 < MAX_RECURSION" by (simp add: MAX_RECURSION_def)
  have a2: "after_passes ?g2 1 {} [(''a'', Null)] = Some (?AB, {''a''})" by code_simp
  have w2: "walk_keys ?g2 (map fst ?AB) {''a''} ?AB False =
      Some ((?AB, {''b'', ''a''}, True), Some (ValueError (UnknownFunction ''b'')))" by code_simp
  from bounded_passes [where proc = ?g2 and j = 1 and d = "[(''a'', Null)]" and dj = ?AB
      and sj = "{''a''}" and ?d2.0 = ?AB and ?s2.0 = "{''b'', ''a''}" and ?n2.0 = True
      and e = "ValueError (UnknownFunction ''b'')", THEN conjunct2, THEN conjunct2, THEN conjunct2, THEN conjunct2, THEN conjunct2, THEN conjunct2, THEN conjunct1] j1 a2 w2
  have n4: "resolve_passes ?g2 MAX_RECURSION {} [(''a'', Null)] =
       Some (?AB, Some (ValueError (UnknownFunction ''b'')))" by blast
  have a3: "after_passes ?g3 1 {} [(''a'', Null)] = Some (?AB, {''a''})" by code_simp
  have w3: "walk_keys ?g3 (map fst ?AB) {''a''} ?AB False = None" by code_simp
  from bounded_passes [where proc = ?g3 and j = 1 and d = "[(''a'', Null)]" and dj = ?AB
      and sj = "{''a''}", THEN conjunct2, THEN conjunct2, THEN conjunct2, THEN conjunct2, THEN conjunct2, THEN conjunct2, THEN conjunct1] j1 a3 w3
  have n5: "resolve_passes ?g3 MAX_RECURSION {} [(''a'', Null)] = None" by blast
  have l: "\<forall>d k v. ?w (Entry d k) v =
      Some ((Entry (map (\<lambda>(k', x). if k' = k then (k', (\<lambda>k v. Sequence [v]) k v) else (k', x)) d) k,
             (\<lambda>k v. Sequence [v]) k v), None)" by simp
  have d1: "distinct (map fst [(''a'', Null)])" by simp
  have d2: "distinct (map fst [(''a'', Null), (''b'', Num 1)])" by simp
  from bounded_passes [where proc = ?w and d = "[(''a'', Null)]" and g = "\<lambda>k v. Sequence [v]"
      and h = "\<lambda>k v. Sequence [v]", THEN conjunct2, THEN conjunct2, THEN conjunct2, THEN conjunct2, THEN conjunct2, THEN conjunct2, THEN conjunct2, THEN conjunct1, THEN mp, OF conjI, OF d1 l]
  have n6: "resolve_passes ?w MAX_RECURSION {} [(''a'', Null)] = Some ([(''a'', Sequence [Null])], None)"
    by simp
  from bounded_passes [where proc = ?w and d = "[(''a'', Null), (''b'', Num 1)]"
      and g = "\<lambda>k v. Sequence [v]" and h = "\<lambda>k v. Sequence [v]", THEN conjunct2, THEN conjunct2, THEN conjunct2, THEN conjunct2, THEN conjunct2, THEN conjunct2, THEN conjunct2, THEN conjunct1, THEN mp, OF conjI, OF d2 l]
  have n7: "resolve_passes ?w MAX_RECURSION {} [(''a'', Null), (''b'', Num 1)] =
       Some ([(''a'', Sequence [Null]), (''b'', Sequence [Num 1])], None)"
    by simp
  have r: "resolve_passes (process_fragment ?G 2) MAX_RECURSION {}
       [(''a'', Mapping [(''Turing::Grow'', Null)])] =
     Some (?GD, Some (RecursionError MaxRecursionOnMapping))" by code_simp
  from bounded_passes [where fns = ?G and fuel = 2 and parent = Root
      and d = "[(''a'', Mapping [(''Turing::Grow'', Null)])]" and d' = ?GD
      and e = "RecursionError MaxRecursionOnMapping", THEN conjunct2, THEN conjunct2, THEN conjunct2, THEN conjunct2, THEN conjunct2, THEN conjunct2, THEN conjunct2, THEN conjunct2, THEN mp, OF r]
  have n8: "process_fragment ?G (Suc 2) Root (Mapping [(''a'', Mapping [(''Turing::Grow'', Null)])]) =
       Some ((Root, Mapping ?GD), Some (RecursionError MaxRecursionOnMapping))"
    by (simp only: in_place.simps)
  have n9: "handler (functions_reg (\<lambda>v. [])) 5 (Mapping [(''a'', Str ''x'')]) =
       Some (Mapping [(''a'', Str ''x'')], ''success'')" by code_simp
  have n10: "handler (functions_reg (\<lambda>v. [])) 9
       (Mapping [(''a'', Mapping [(''Turing::ForEach'',
            Sequence [Sequence [Sequence [Str ''v'', Sequence [Num 1, Num 2]]], Str ''n$v''])]),
                (''b'', Sequence [Mapping [(''Turing::Splice'', Sequence [Str ''x'', Str ''y''])]])]) =
       Some (Mapping [(''a'', Sequence [Str ''n1'', Str ''n2'']), (''b'', Sequence [Str ''x'', Str ''y''])],
             ''success'')" by code_simp
  from o1 o2 a o4 n1 n2 n3 n4 n5 n6 n7 n8 n9 n10 show ?thesis by (intro conjI)
qed

subsection \<open>What a call does to a list parent\<close>

text \<open>
  A registered function, and with it \<^verbatim>\<open>process_fragment\<close>, leaves the elements
  before its own index as they are; so does the rest of the walk.
\<close>

lemma handler_Elem:
  assumes "functions_reg cr key = Some f" and "i \<le> length xs" and "f (Elem xs i) v = Some (p, e)"
  shows "\<exists>xs'. p = Elem xs' i \<and> take i xs' = take i xs \<and> i \<le> length xs'"
proof -
  from registry_cases [OF assms(1)] show ?thesis
  proof
    assume f: "f = splice"
    show ?thesis
    proof (cases "\<exists>ys. v = Sequence ys")
      case True
      then obtain ys where "v = Sequence ys" ..
      with assms(3) f have "p = Elem (take i xs @ ys @ drop (Suc i) xs) i" by simp
      with assms(2) show ?thesis by simp
    next
      case False
      with assms(3) f have "p = Elem xs i" by (cases v) auto
      with assms(2) show ?thesis by simp
    qed
  next
    assume f: "f = for_each cr"
    from for_each_cases [of cr "Elem xs i" v] show ?thesis
    proof
      assume "\<exists>e. for_each cr (Elem xs i) v = Some (Elem xs i, Some e)"
      with assms(3) f have "p = Elem xs i" by auto
      with assms(2) show ?thesis by simp
    next
      assume "\<exists>out. for_each cr (Elem xs i) v = Some (setitem (Elem xs i) (Sequence out))"
      then obtain out where "for_each cr (Elem xs i) v = Some (setitem (Elem xs i) (Sequence out))" ..
      with assms(3) f have "(p, e) = setitem (Elem xs i) (Sequence out)" by simp
      with assms(2) show ?thesis by (cases "i < length xs") auto
    qed
  qed
qed

lemma call_functions_Elem:
  "i \<le> length xs \<Longrightarrow> call_functions (functions_reg cr) (Elem xs i) n items = Some (p, e) \<Longrightarrow>
     \<exists>xs'. p = Elem xs' i \<and> take i xs' = take i xs \<and> i \<le> length xs'"
proof (induction items arbitrary: xs)
  case Nil
  then show ?case by auto
next
  case (Cons kv items)
  obtain key v where kv: "kv = (key, v)" by (cases kv)
  show ?case
  proof (cases "startswith key ''Turing::'' \<and> n = 1")
    case False
    with Cons.prems kv have
      "(startswith key ''Turing::'' \<and> p = Elem xs i) \<or>
       call_functions (functions_reg cr) (Elem xs i) n items = Some (p, e)"
      by (auto split: if_splits)
    then show ?thesis using Cons.IH [OF Cons.prems(1)] Cons.prems(1) by blast
  next
    case True
    show ?thesis
    proof (cases "functions_reg cr key")
      case None
      with True Cons.prems kv have "p = Elem xs i" by simp
      then show ?thesis using Cons.prems(1) by blast
    next
      case (Some f)
      with True Cons.prems(2) kv obtain p1 e1 where f: "f (Elem xs i) v = Some (p1, e1)"
        by (cases "f (Elem xs i) v") auto
      from handler_Elem [OF Some Cons.prems(1) f] obtain xs1 where
        x1: "p1 = Elem xs1 i" "take i xs1 = take i xs" "i \<le> length xs1" by blast
      show ?thesis
      proof (cases e1)
        case (Some err)
        with True Cons.prems(2) kv \<open>functions_reg cr key = Some f\<close> f have "p = p1" by simp
        with x1 show ?thesis by blast
      next
        case None
        with True Cons.prems(2) kv \<open>functions_reg cr key = Some f\<close> f x1
        have c: "call_functions (functions_reg cr) (Elem xs1 i) n items = Some (p, e)" by simp
        from Cons.IH [OF x1(3) c] x1(2) show ?thesis by auto
      qed
    qed
  qed
qed

lemma process_fragment_Elem:
  assumes "i \<le> length xs"
    and "process_fragment (functions_reg cr) fuel (Elem xs i) v = Some ((p, v'), e)"
  shows "\<exists>xs'. p = Elem xs' i \<and> take i xs' = take i xs \<and> i \<le> length xs'"
proof (cases fuel)
  case 0
  with assms(2) show ?thesis by simp
next
  case (Suc n)
  have ip: "\<And>x. in_place (Elem xs i) x = Elem (xs[i := x]) i" by simp
  show ?thesis
  proof (cases v)
    case (Mapping kvs)
    show ?thesis
    proof (cases "resolve_passes (process_fragment (functions_reg cr) n) MAX_RECURSION {} kvs")
      case None
      with assms(2) Suc Mapping show ?thesis by simp
    next
      case (Some r)
      obtain kvs' e1 where r: "r = (kvs', e1)" by (cases r)
      show ?thesis
      proof (cases e1)
        case (Some err)
        with assms(2) Suc Mapping \<open>resolve_passes _ _ _ kvs = Some r\<close> r
        have "p = Elem (xs[i := Mapping kvs']) i" by auto
        with assms(1) show ?thesis by simp
      next
        case None
        with assms(2) Suc Mapping \<open>resolve_passes _ _ _ kvs = Some r\<close> r
        have c: "call_functions (functions_reg cr) (Elem (xs[i := Mapping kvs']) i) (length kvs') kvs' =
            Some (p, e)"
          by (auto split: option.splits)
        from assms(1) have "i \<le> length (xs[i := Mapping kvs'])" by simp
        from call_functions_Elem [OF this c] show ?thesis by auto
      qed
    qed
  next
    case (Sequence ys)
    with assms(2) Suc obtain ys' where "p = Elem (xs[i := Sequence ys']) i"
      by (auto split: option.splits)
    with assms(1) show ?thesis by simp
  qed (use assms Suc in auto)
qed

lemma walk_list_prefix:
  "walk_list (process_fragment (functions_reg cr) n) steps j xs = Some (ys, e) \<Longrightarrow>
     take j ys = take j xs"
proof (induction steps arbitrary: j xs)
  case 0
  then show ?case by (auto split: if_splits)
next
  case (Suc steps)
  show ?case
  proof (cases "j < length xs")
    case False
    with Suc.prems show ?thesis by simp
  next
    case True
    with Suc.prems obtain p v' e1 where
      pr: "process_fragment (functions_reg cr) n (Elem xs j) (xs ! j) = Some ((p, v'), e1)"
      by (cases "process_fragment (functions_reg cr) n (Elem xs j) (xs ! j)") auto
    from True have "j \<le> length xs" by simp
    from process_fragment_Elem [OF this pr] obtain xs' where
      x: "p = Elem xs' j" "take j xs' = take j xs" by blast
    show ?thesis
    proof (cases e1)
      case (Some err)
      with Suc.prems True pr x show ?thesis by simp
    next
      case None
      with Suc.prems True pr x have
        "walk_list (process_fragment (functions_reg cr) n) steps (Suc j) xs' = Some (ys, e)" by simp
      from Suc.IH [OF this] have "take (Suc j) ys = take (Suc j) xs'" .
      then have "take j (take (Suc j) ys) = take j (take (Suc j) xs')" by simp
      then have "take j ys = take j xs'" by (simp add: min_def)
      with x(2) show ?thesis by simp
    qed
  qed
qed

text \<open>With the registry of the source, a pass leaves the entries of visited keys as they are.\<close>

lemma walk_keys_visited_kept:
  "walk_keys (process_fragment (functions_reg cr) n) ks seen d new = Some ((d', seen', new'), e) \<Longrightarrow>
     k \<in> seen \<Longrightarrow> map_of d' k = map_of d k"
proof (induction ks arbitrary: seen d new)
  case Nil
  then show ?case by simp
next
  case (Cons kk ks)
  show ?case
  proof (cases "kk \<in> seen")
    case True
    with Cons show ?thesis by simp
  next
    case False
    with Cons.prems(2) have ne: "k \<noteq> kk" by auto
    show ?thesis
    proof (cases "map_of d kk")
      case None
      with False Cons.prems show ?thesis by simp
    next
      case (Some child)
      then have kin: "kk \<in> fst ` set d" by (metis map_of_eq_None_iff option.distinct(1))
      from Cons.prems(1) False Some obtain p c' e1 where
        pr: "process_fragment (functions_reg cr) n (Entry d kk) child = Some ((p, c'), e1)"
        by (cases "process_fragment (functions_reg cr) n (Entry d kk) child") auto
      from process_fragment_Entry [OF kin pr] obtain d1 where
        d1: "p = Entry d1 kk" "same_but kk d d1" by blast
      from same_but_map_of [OF d1(2) ne] have m: "map_of d1 k = map_of d k" .
      show ?thesis
      proof (cases e1)
        case (Some err)
        with Cons.prems(1) False \<open>map_of d kk = Some child\<close> pr d1 m show ?thesis by simp
      next
        case None
        with Cons.prems(1) False \<open>map_of d kk = Some child\<close> pr d1
        have "walk_keys (process_fragment (functions_reg cr) n) ks (insert kk seen) d1 True =
            Some ((d', seen', new'), e)" by simp
        from Cons.IH [OF this] Cons.prems(2) m show ?thesis by simp
      qed
    qed
  qed
qed

lemma resolve_passes_visited_kept:
  "resolve_passes (process_fragment (functions_reg cr) n) r seen d = Some (d', e) \<Longrightarrow>
     k \<in> seen \<Longrightarrow> map_of d' k = map_of d k"
proof (induction r arbitrary: seen d)
  case 0
  then show ?case by (auto split: if_splits)
next
  case (Suc r)
  from Suc.prems(1) obtain d1 s1 new1 e1 where
    w: "walk_keys (process_fragment (functions_reg cr) n) (map fst d) seen d False =
          Some ((d1, s1, new1), e1)"
    by (cases "walk_keys (process_fragment (functions_reg cr) n) (map fst d) seen d False") auto
  from walk_keys_visited_kept [OF w Suc.prems(2)] have m: "map_of d1 k = map_of d k" .
  from walk_keys_grows [OF w] Suc.prems(2) have k: "k \<in> s1" by auto
  show ?case
  proof (cases "e1 = None \<and> new1")
    case True
    with Suc.prems(1) w have "resolve_passes (process_fragment (functions_reg cr) n) r s1 d1 = Some (d', e)"
      by auto
    from Suc.IH [OF this k] m show ?thesis by simp
  next
    case False
    with Suc.prems(1) w have "d' = d1" by (cases e1) (auto split: if_splits)
    with m show ?thesis by simp
  qed
qed

subsection \<open>Dispatch, and the walk after it\<close>

text \<open>
  A mapping that has converged to one entry under a registered key is dispatched once:
  the call returns what the function returns.
\<close>

lemma dispatch_single:
  assumes "resolve_passes (process_fragment fns fuel) MAX_RECURSION {} kvs = Some ([(k, v)], None)"
    and "startswith k ''Turing::''" and "fns k = Some f"
  shows "process_fragment fns (Suc fuel) parent (Mapping kvs) =
     map_option (\<lambda>(p', e). ((p', Mapping [(k, v)]), e)) (f (in_place parent (Mapping [(k, v)])) v)"
proof (cases "f (in_place parent (Mapping [(k, v)])) v")
  case None
  with assms show ?thesis by simp
next
  case (Some r)
  obtain p' e where "r = (p', e)" by (cases r)
  with Some assms show ?thesis by (cases e) simp_all
qed

text \<open>
  C1, as amended. Let the element at index \<open>i\<close> of the list being walked be a
  \<^verbatim>\<open>Turing::Splice\<close> call whose argument has resolved to the list \<open>ys\<close>. Resolving
  the element replaces exactly that element by the elements of \<open>ys\<close> in order (the
  elements before and after keep their order, the length changes by
  \<open>length ys - 1\<close>), and the walk goes on at index \<open>i + 1\<close> of the new list. So the
  first inserted element is not resolved as an element, the inserted elements after
  the first are at the indices the walk visits next, and when \<open>ys\<close> is empty the
  element that has slid into position \<open>i\<close> is skipped.
\<close>

theorem splice_resumes_after:
  assumes "i < length xs" and "xs ! i = Mapping [(''Turing::Splice'', a)]"
    and "fns ''Turing::Splice'' = Some splice"
    and "process_fragment fns fuel (Entry [(''Turing::Splice'', a)] ''Turing::Splice'') a =
           Some ((Entry [(''Turing::Splice'', Sequence ys)] ''Turing::Splice'', a'), None)"
  shows "process_fragment fns (Suc fuel) (Elem xs i) (xs ! i) =
       Some ((Elem (take i xs @ ys @ drop (Suc i) xs) i,
              Mapping [(''Turing::Splice'', Sequence ys)]), None)
     \<and> length (take i xs @ ys @ drop (Suc i) xs) + 1 = length xs + length ys
     \<and> walk_list (process_fragment fns (Suc fuel)) (Suc steps) i xs =
         walk_list (process_fragment fns (Suc fuel)) steps (Suc i) (take i xs @ ys @ drop (Suc i) xs)
     \<and> (\<forall>j<i. (take i xs @ ys @ drop (Suc i) xs) ! j = xs ! j)
     \<and> (\<forall>j<length ys. (take i xs @ ys @ drop (Suc i) xs) ! (i + j) = ys ! j)
     \<and> (\<forall>j. Suc i + j < length xs \<longrightarrow>
           (take i xs @ ys @ drop (Suc i) xs) ! (i + length ys + j) = xs ! (Suc i + j))"
proof -
  let ?S = "''Turing::Splice''"
  let ?new = "take i xs @ ys @ drop (Suc i) xs"
  from single_entry_passes [of "process_fragment fns fuel", OF assms(4)]
  have passes: "resolve_passes (process_fragment fns fuel) MAX_RECURSION {} [(?S, a)] =
      Some ([(?S, Sequence ys)], None)" .
  have pre: "startswith ?S ''Turing::''" by (simp add: startswith_def)
  from dispatch_single [OF passes pre assms(3), of "Elem xs i"] assms(1)
  have step: "process_fragment fns (Suc fuel) (Elem xs i) (Mapping [(?S, a)]) =
      Some ((Elem ?new i, Mapping [(?S, Sequence ys)]), None)"
    by simp
  then have 1: "process_fragment fns (Suc fuel) (Elem xs i) (xs ! i) =
      Some ((Elem ?new i, Mapping [(?S, Sequence ys)]), None)"
    by (simp only: assms(2))
  have 2: "length ?new + 1 = length xs + length ys" using assms(1) by simp
  have 3: "walk_list (process_fragment fns (Suc fuel)) (Suc steps) i xs =
         walk_list (process_fragment fns (Suc fuel)) steps (Suc i) ?new"
    using assms(1) 1 by simp
  have 4: "\<forall>j<i. ?new ! j = xs ! j" using assms(1) by (simp add: nth_append)
  have 5: "\<forall>j<length ys. ?new ! (i + j) = ys ! j" using assms(1) by (simp add: nth_append)
  have 6: "\<forall>j. Suc i + j < length xs \<longrightarrow> ?new ! (i + length ys + j) = xs ! (Suc i + j)"
    using assms(1) by (simp add: nth_append)
  from 1 2 3 4 5 6 show ?thesis by blast
qed

theorem splice_resumes_after_witness:
  "(1::nat) < length [Str ''a'', Mapping [(''Turing::Splice'', Sequence [Str ''c'', Str ''d''])], Str ''e'']
   \<and> functions_reg (\<lambda>v. []) ''Turing::Splice'' = Some splice
   \<and> process_fragment (functions_reg (\<lambda>v. [])) (Suc 3)
        (Elem [Str ''a'', Mapping [(''Turing::Splice'', Sequence [Str ''c'', Str ''d''])], Str ''e''] 1)
        (Mapping [(''Turing::Splice'', Sequence [Str ''c'', Str ''d''])]) =
       Some ((Elem [Str ''a'', Str ''c'', Str ''d'', Str ''e''] 1,
              Mapping [(''Turing::Splice'', Sequence [Str ''c'', Str ''d''])]), None)
   \<and> walk_list (process_fragment (functions_reg (\<lambda>v. [])) (Suc 3)) (Suc 3) 1
        [Str ''a'', Mapping [(''Turing::Splice'', Sequence [Str ''c'', Str ''d''])], Str ''e''] =
       walk_list (process_fragment (functions_reg (\<lambda>v. [])) (Suc 3)) 3 (Suc 1)
        [Str ''a'', Str ''c'', Str ''d'', Str ''e'']"
proof -
  let ?fns = "functions_reg (\<lambda>v. [])"
  let ?a = "Sequence [Str ''c'', Str ''d'']"
  let ?xs = "[Str ''a'', Mapping [(''Turing::Splice'', ?a)], Str ''e'']"
  have i: "1 < length ?xs" by simp
  have x: "?xs ! 1 = Mapping [(''Turing::Splice'', ?a)]" by simp
  have r: "?fns ''Turing::Splice'' = Some splice" by (simp add: functions_reg_def)
  have h: "process_fragment ?fns 3 (Entry [(''Turing::Splice'', ?a)] ''Turing::Splice'') ?a =
      Some ((Entry [(''Turing::Splice'', Sequence [Str ''c'', Str ''d''])] ''Turing::Splice'', ?a), None)"
    by code_simp
  from splice_resumes_after [OF i x r h, of 3] i r show ?thesis by simp
qed

text \<open>
  C1, as stated, fails in both of its consequences. With an empty argument the walk
  goes on at index 1, not at the call that has slid into position 0, which stays
  unresolved (continuing at it would expand it to \<^verbatim>\<open>"x"\<close>). With two inserted
  elements the second one, a list that still held a call when it was inserted, is
  resolved by the same walk.
\<close>

theorem splice_index_drift_counterexample:
  "walk_list (process_fragment (functions_reg (\<lambda>v. [])) 3) 3 0
     [Mapping [(''Turing::Splice'', Sequence [])],
      Mapping [(''Turing::Splice'', Sequence [Str ''x''])]] =
     walk_list (process_fragment (functions_reg (\<lambda>v. [])) 3) 2 1
       [Mapping [(''Turing::Splice'', Sequence [Str ''x''])]]
   \<and> walk_list (process_fragment (functions_reg (\<lambda>v. [])) 3) 3 0
       [Mapping [(''Turing::Splice'', Sequence [])],
        Mapping [(''Turing::Splice'', Sequence [Str ''x''])]] \<noteq>
     walk_list (process_fragment (functions_reg (\<lambda>v. [])) 3) 2 0
       [Mapping [(''Turing::Splice'', Sequence [Str ''x''])]]
   \<and> walk_list (process_fragment (functions_reg (\<lambda>v. [])) 3) 3 0
       [Mapping [(''Turing::Splice'', Sequence [])],
        Mapping [(''Turing::Splice'', Sequence [Str ''x''])]] =
     Some ([Mapping [(''Turing::Splice'', Sequence [Str ''x''])]], None)
   \<and> process_fragment (functions_reg (\<lambda>v. [])) 4
       (Entry [(''Turing::Splice'',
          Sequence [Str ''a'',
                    Sequence [Mapping [(''Turing::Splice'', Sequence [])],
                              Mapping [(''Turing::Splice'', Sequence [Str ''x''])]]])] ''Turing::Splice'')
       (Sequence [Str ''a'',
                  Sequence [Mapping [(''Turing::Splice'', Sequence [])],
                            Mapping [(''Turing::Splice'', Sequence [Str ''x''])]]]) =
     Some ((Entry [(''Turing::Splice'',
              Sequence [Str ''a'', Sequence [Mapping [(''Turing::Splice'', Sequence [Str ''x''])]]])]
              ''Turing::Splice'',
            Sequence [Str ''a'', Sequence [Mapping [(''Turing::Splice'', Sequence [Str ''x''])]]]),
           None)
   \<and> walk_list (process_fragment (functions_reg (\<lambda>v. [])) 5) 5 0
       [Mapping [(''Turing::Splice'',
          Sequence [Str ''a'',
                    Sequence [Mapping [(''Turing::Splice'', Sequence [])],
                              Mapping [(''Turing::Splice'', Sequence [Str ''x''])]]])]] =
     Some ([Str ''a'', Sequence [Str ''x'']], None)
   \<and> walk_list (process_fragment (functions_reg (\<lambda>v. [])) 5) 5 0
       [Mapping [(''Turing::Splice'',
          Sequence [Str ''a'',
                    Sequence [Mapping [(''Turing::Splice'', Sequence [])],
                              Mapping [(''Turing::Splice'', Sequence [Str ''x''])]]])]] \<noteq>
     Some ([Str ''a'', Sequence [Mapping [(''Turing::Splice'', Sequence [Str ''x''])]]], None)"
  by code_simp

text \<open>
  After a call in a slot has returned, the walk of the container goes on: a list walk
  at the next index, a pass over a mapping at the next key, with the key of the slot
  recorded as visited.
\<close>

lemma walk_list_goes_on:
  assumes "i < length xs" and "proc (Elem xs i) (xs ! i) = Some ((Elem xs' i, v'), None)"
  shows "walk_list proc (Suc steps) i xs = walk_list proc steps (Suc i) xs'"
  using assms by simp

lemma list_slot_stays:
  assumes "i < length xs" and "xs ! i = Mapping kvs"
    and "resolve_passes (process_fragment (functions_reg cr) n) MAX_RECURSION {} kvs =
           Some ([(k, v)], None)"
    and "startswith k ''Turing::''" and "functions_reg cr k = Some f"
    and "f (Elem (xs[i := Mapping [(k, v)]]) i) v = Some (Elem xs' i, None)"
  shows "process_fragment (functions_reg cr) (Suc n) (Elem xs i) (xs ! i) =
           Some ((Elem xs' i, Mapping [(k, v)]), None)"
    and "walk_list (process_fragment (functions_reg cr) (Suc n)) (Suc steps) i xs =
           walk_list (process_fragment (functions_reg cr) (Suc n)) steps (Suc i) xs'"
    and "walk_list (process_fragment (functions_reg cr) (Suc n)) (Suc steps) i xs = Some (ys, e) \<Longrightarrow>
           take (Suc i) ys = take (Suc i) xs'"
proof -
  from dispatch_single [OF assms(3,4,5), of "Elem xs i"] assms(6)
  have "process_fragment (functions_reg cr) (Suc n) (Elem xs i) (Mapping kvs) =
      Some ((Elem xs' i, Mapping [(k, v)]), None)" by simp
  then show p: "process_fragment (functions_reg cr) (Suc n) (Elem xs i) (xs ! i) =
      Some ((Elem xs' i, Mapping [(k, v)]), None)" by (simp only: assms(2))
  from walk_list_goes_on [of i xs "process_fragment (functions_reg cr) (Suc n)" xs' "Mapping [(k, v)]" steps,
      OF assms(1) p]
  show w: "walk_list (process_fragment (functions_reg cr) (Suc n)) (Suc steps) i xs =
           walk_list (process_fragment (functions_reg cr) (Suc n)) steps (Suc i) xs'" .
  assume "walk_list (process_fragment (functions_reg cr) (Suc n)) (Suc steps) i xs = Some (ys, e)"
  with w have "walk_list (process_fragment (functions_reg cr) (Suc n)) steps (Suc i) xs' = Some (ys, e)"
    by simp
  from walk_list_prefix [OF this] show "take (Suc i) ys = take (Suc i) xs'" .
qed

lemma walk_keys_goes_on:
  assumes "key \<notin> seen" and "map_of d key = Some c"
    and "proc (Entry d key) c = Some ((Entry d1 key, c'), None)"
  shows "walk_keys proc (key # ks) seen d new = walk_keys proc ks (insert key seen) d1 True"
  using assms by simp

lemma mapping_slot_stays:
  assumes "key \<notin> seen" and "map_of d key = Some (Mapping kvs)"
    and "resolve_passes (process_fragment (functions_reg cr) n) MAX_RECURSION {} kvs =
           Some ([(k, v)], None)"
    and "startswith k ''Turing::''" and "functions_reg cr k = Some f"
    and "f (in_place (Entry d key) (Mapping [(k, v)])) v = Some (Entry d1 key, None)"
  shows "process_fragment (functions_reg cr) (Suc n) (Entry d key) (Mapping kvs) =
           Some ((Entry d1 key, Mapping [(k, v)]), None)"
    and "walk_keys (process_fragment (functions_reg cr) (Suc n)) (key # ks) seen d new =
           walk_keys (process_fragment (functions_reg cr) (Suc n)) ks (insert key seen) d1 True"
    and "walk_keys (process_fragment (functions_reg cr) (Suc n)) (key # ks) seen d new =
           Some ((d2, s2, n2), e2) \<Longrightarrow>
         resolve_passes (process_fragment (functions_reg cr) (Suc n)) r s2 d2 = Some (d', e) \<Longrightarrow>
           key \<in> s2 \<and> map_of d2 key = map_of d1 key \<and> map_of d' key = map_of d1 key"
proof -
  from dispatch_single [OF assms(3,4,5), of "Entry d key"] assms(6)
  show p: "process_fragment (functions_reg cr) (Suc n) (Entry d key) (Mapping kvs) =
      Some ((Entry d1 key, Mapping [(k, v)]), None)" by simp
  from walk_keys_goes_on [of key seen d "Mapping kvs" "process_fragment (functions_reg cr) (Suc n)" d1
      "Mapping [(k, v)]" ks new, OF assms(1,2) p]
  show w: "walk_keys (process_fragment (functions_reg cr) (Suc n)) (key # ks) seen d new =
           walk_keys (process_fragment (functions_reg cr) (Suc n)) ks (insert key seen) d1 True" .
  assume a: "walk_keys (process_fragment (functions_reg cr) (Suc n)) (key # ks) seen d new =
           Some ((d2, s2, n2), e2)"
    and b: "resolve_passes (process_fragment (functions_reg cr) (Suc n)) r s2 d2 = Some (d', e)"
  from a w have r: "walk_keys (process_fragment (functions_reg cr) (Suc n)) ks (insert key seen) d1 True =
      Some ((d2, s2, n2), e2)" by simp
  from walk_keys_grows [OF r] have 1: "key \<in> s2" by auto
  from walk_keys_visited_kept [OF r, of key] have 2: "map_of d2 key = map_of d1 key" by simp
  from resolve_passes_visited_kept [OF b 1] 2 have 3: "map_of d' key = map_of d1 key" by simp
  from 1 2 3 show "key \<in> s2 \<and> map_of d2 key = map_of d1 key \<and> map_of d' key = map_of d1 key"
    by (intro conjI)
qed

text \<open>
  C3, as amended. The call that dispatches a registered function returns what the
  function left in the parent, without resolving it. With the registry of the source,
  the walk that goes on after index \<open>i\<close> of a list leaves the elements up to \<open>i\<close> as
  they are, and the passes over a mapping leave the entries of visited keys as they
  are: the container that holds the slot never resolves the assigned value.

  For a call in a list slot: the resolution of the element returns the list as the
  function left it, the walk goes on at the next index of that list, and the list the
  walk returns agrees with it at every index up to the slot. For a call in a mapping
  slot: the resolution of the entry returns the mapping as the function left it, the pass
  goes on at the next key with the key of the slot recorded as visited, and the mapping
  at the end of the pass and at the end of the passes holds under that key what the
  function left there. So the output of a \<^verbatim>\<open>Turing::ForEach\<close> call that holds a mapping
  \<^verbatim>\<open>{"Turing::Splice": ["q"]}\<close> is in the final document as the function assigned it,
  in a list slot and in a mapping slot.
\<close>

theorem handler_output_stays:
  "(resolve_passes (process_fragment fns fuel) MAX_RECURSION {} kvs = Some ([(k, v)], None)
      \<and> startswith k ''Turing::'' \<and> fns k = Some f \<longrightarrow>
    process_fragment fns (Suc fuel) parent (Mapping kvs) =
      map_option (\<lambda>(p', e). ((p', Mapping [(k, v)]), e)) (f (in_place parent (Mapping [(k, v)])) v))
   \<and> (walk_list (process_fragment (functions_reg cr) n) steps (Suc i) xs = Some (ys, e) \<longrightarrow>
        take (Suc i) ys = take (Suc i) xs)
   \<and> (resolve_passes (process_fragment (functions_reg cr) n) r seen d = Some (d', e') \<and> key \<in> seen \<longrightarrow>
        map_of d' key = map_of d key)
   \<and> (idx < length items \<and> items ! idx = Mapping call
        \<and> resolve_passes (process_fragment (functions_reg cr) m) MAX_RECURSION {} call =
            Some ([(name, arg)], None)
        \<and> startswith name ''Turing::'' \<and> functions_reg cr name = Some fn
        \<and> fn (Elem (items[idx := Mapping [(name, arg)]]) idx) arg = Some (Elem items' idx, None) \<longrightarrow>
        process_fragment (functions_reg cr) (Suc m) (Elem items idx) (items ! idx) =
          Some ((Elem items' idx, Mapping [(name, arg)]), None)
        \<and> walk_list (process_fragment (functions_reg cr) (Suc m)) (Suc todo) idx items =
            walk_list (process_fragment (functions_reg cr) (Suc m)) todo (Suc idx) items'
        \<and> (walk_list (process_fragment (functions_reg cr) (Suc m)) (Suc todo) idx items =
              Some (final, err) \<longrightarrow>
            take (Suc idx) final = take (Suc idx) items'))
   \<and> (slot_key \<notin> visited \<and> map_of entries slot_key = Some (Mapping call)
        \<and> resolve_passes (process_fragment (functions_reg cr) m) MAX_RECURSION {} call =
            Some ([(name, arg)], None)
        \<and> startswith name ''Turing::'' \<and> functions_reg cr name = Some fn
        \<and> fn (in_place (Entry entries slot_key) (Mapping [(name, arg)])) arg =
            Some (Entry entries1 slot_key, None) \<longrightarrow>
        process_fragment (functions_reg cr) (Suc m) (Entry entries slot_key) (Mapping call) =
          Some ((Entry entries1 slot_key, Mapping [(name, arg)]), None)
        \<and> walk_keys (process_fragment (functions_reg cr) (Suc m)) (slot_key # rest) visited entries new =
            walk_keys (process_fragment (functions_reg cr) (Suc m)) rest (insert slot_key visited)
              entries1 True
        \<and> (walk_keys (process_fragment (functions_reg cr) (Suc m)) (slot_key # rest) visited entries new =
              Some ((entries2, visited2, new2), err2)
            \<and> resolve_passes (process_fragment (functions_reg cr) (Suc m)) passes visited2 entries2 =
                Some (entries', err') \<longrightarrow>
            slot_key \<in> visited2 \<and> map_of entries2 slot_key = map_of entries1 slot_key
            \<and> map_of entries' slot_key = map_of entries1 slot_key))"
proof -
  have c1: "resolve_passes (process_fragment fns fuel) MAX_RECURSION {} kvs = Some ([(k, v)], None)
      \<and> startswith k ''Turing::'' \<and> fns k = Some f \<longrightarrow>
    process_fragment fns (Suc fuel) parent (Mapping kvs) =
      map_option (\<lambda>(p', e). ((p', Mapping [(k, v)]), e)) (f (in_place parent (Mapping [(k, v)])) v)"
    using dispatch_single [of fns fuel kvs k v f parent] by blast
  have c2: "walk_list (process_fragment (functions_reg cr) n) steps (Suc i) xs = Some (ys, e) \<longrightarrow>
        take (Suc i) ys = take (Suc i) xs"
    using walk_list_prefix [of cr n steps "Suc i" xs ys e] by blast
  have c3: "resolve_passes (process_fragment (functions_reg cr) n) r seen d = Some (d', e') \<and> key \<in> seen \<longrightarrow>
        map_of d' key = map_of d key"
    using resolve_passes_visited_kept [of cr n r seen d d' e' key] by blast
  have c4: "idx < length items \<and> items ! idx = Mapping call
        \<and> resolve_passes (process_fragment (functions_reg cr) m) MAX_RECURSION {} call =
            Some ([(name, arg)], None)
        \<and> startswith name ''Turing::'' \<and> functions_reg cr name = Some fn
        \<and> fn (Elem (items[idx := Mapping [(name, arg)]]) idx) arg = Some (Elem items' idx, None) \<longrightarrow>
        process_fragment (functions_reg cr) (Suc m) (Elem items idx) (items ! idx) =
          Some ((Elem items' idx, Mapping [(name, arg)]), None)
        \<and> walk_list (process_fragment (functions_reg cr) (Suc m)) (Suc todo) idx items =
            walk_list (process_fragment (functions_reg cr) (Suc m)) todo (Suc idx) items'
        \<and> (walk_list (process_fragment (functions_reg cr) (Suc m)) (Suc todo) idx items =
              Some (final, err) \<longrightarrow>
            take (Suc idx) final = take (Suc idx) items')"
    using list_slot_stays(1) [where i = idx and xs = items and kvs = call and cr = cr and n = m
          and k = name and v = arg and f = fn and xs' = items']
      list_slot_stays(2) [where i = idx and xs = items and kvs = call and cr = cr and n = m
          and k = name and v = arg and f = fn and xs' = items' and steps = todo]
      list_slot_stays(3) [where i = idx and xs = items and kvs = call and cr = cr and n = m
          and k = name and v = arg and f = fn and xs' = items' and steps = todo and ys = final
          and e = err]
    by blast
  have c5: "slot_key \<notin> visited \<and> map_of entries slot_key = Some (Mapping call)
        \<and> resolve_passes (process_fragment (functions_reg cr) m) MAX_RECURSION {} call =
            Some ([(name, arg)], None)
        \<and> startswith name ''Turing::'' \<and> functions_reg cr name = Some fn
        \<and> fn (in_place (Entry entries slot_key) (Mapping [(name, arg)])) arg =
            Some (Entry entries1 slot_key, None) \<longrightarrow>
        process_fragment (functions_reg cr) (Suc m) (Entry entries slot_key) (Mapping call) =
          Some ((Entry entries1 slot_key, Mapping [(name, arg)]), None)
        \<and> walk_keys (process_fragment (functions_reg cr) (Suc m)) (slot_key # rest) visited entries new =
            walk_keys (process_fragment (functions_reg cr) (Suc m)) rest (insert slot_key visited)
              entries1 True
        \<and> (walk_keys (process_fragment (functions_reg cr) (Suc m)) (slot_key # rest) visited entries new =
              Some ((entries2, visited2, new2), err2)
            \<and> resolve_passes (process_fragment (functions_reg cr) (Suc m)) passes visited2 entries2 =
                Some (entries', err') \<longrightarrow>
            slot_key \<in> visited2 \<and> map_of entries2 slot_key = map_of entries1 slot_key
            \<and> map_of entries' slot_key = map_of entries1 slot_key)"
    using mapping_slot_stays(1) [where key = slot_key and seen = visited and d = entries
          and kvs = call and cr = cr and n = m and k = name and v = arg and f = fn
          and ?d1.0 = entries1]
      mapping_slot_stays(2) [where key = slot_key and seen = visited and d = entries
          and kvs = call and cr = cr and n = m and k = name and v = arg and f = fn
          and ?d1.0 = entries1 and ks = rest and new = new]
      mapping_slot_stays(3) [where key = slot_key and seen = visited and d = entries
          and kvs = call and cr = cr and n = m and k = name and v = arg and f = fn
          and ?d1.0 = entries1 and ks = rest and new = new and ?d2.0 = entries2
          and ?s2.0 = visited2 and ?n2.0 = new2 and ?e2.0 = err2 and r = passes
          and d' = entries' and e = err']
    by blast
  from c1 c2 c3 c4 c5 show ?thesis by (intro conjI)
qed

theorem handler_output_stays_witness:
  "process_fragment (functions_reg (\<lambda>v. [])) (Suc 6)
      (Entry [(''k'', Mapping [(''Turing::ForEach'', Sequence [Sequence [Sequence [Str ''v'', Sequence [Str ''Turing::Splice'']]], Mapping [(''$v'', Sequence [Str ''q''])]])])] ''k'')
      (Mapping [(''Turing::ForEach'', Sequence [Sequence [Sequence [Str ''v'', Sequence [Str ''Turing::Splice'']]], Mapping [(''$v'', Sequence [Str ''q''])]])]) =
     Some ((Entry [(''k'', Sequence [Mapping [(''Turing::Splice'', Sequence [Str ''q''])]])] ''k'',
            Mapping [(''Turing::ForEach'', Sequence [Sequence [Sequence [Str ''v'', Sequence [Str ''Turing::Splice'']]], Mapping [(''$v'', Sequence [Str ''q''])]])]), None)
   \<and> handler (functions_reg (\<lambda>v. [])) 8
       (Mapping [(''k'', Mapping [(''Turing::ForEach'', Sequence [Sequence [Sequence [Str ''v'', Sequence [Str ''Turing::Splice'']]], Mapping [(''$v'', Sequence [Str ''q''])]])])]) =
     Some (Mapping [(''k'', Sequence [Mapping [(''Turing::Splice'', Sequence [Str ''q''])]])], ''success'')
   \<and> walk_list (process_fragment (functions_reg (\<lambda>v. [])) 3) 3 (Suc 0)
       [Sequence [Mapping [(''Turing::Splice'', Sequence [Str ''q''])]], Mapping [(''Turing::Splice'', Sequence [Str ''x''])]] =
     Some ([Sequence [Mapping [(''Turing::Splice'', Sequence [Str ''q''])]], Str ''x''], None)
   \<and> take (Suc 0) [Sequence [Mapping [(''Turing::Splice'', Sequence [Str ''q''])]], Str ''x''] =
     take (Suc 0) [Sequence [Mapping [(''Turing::Splice'', Sequence [Str ''q''])]], Mapping [(''Turing::Splice'', Sequence [Str ''x''])]]
   \<and> resolve_passes (process_fragment (functions_reg (\<lambda>v. [])) 5) 2 {''k''}
        [(''k'', Sequence [Mapping [(''Turing::Splice'', Sequence [Str ''q''])]]), (''j'', Sequence [Mapping [(''Turing::Splice'', Sequence [Str ''x''])]])] =
      Some ([(''k'', Sequence [Mapping [(''Turing::Splice'', Sequence [Str ''q''])]]), (''j'', Sequence [Str ''x''])], None)
   \<and> map_of [(''k'', Sequence [Mapping [(''Turing::Splice'', Sequence [Str ''q''])]]), (''j'', Sequence [Str ''x''])] ''k'' =
     map_of [(''k'', Sequence [Mapping [(''Turing::Splice'', Sequence [Str ''q''])]]), (''j'', Sequence [Mapping [(''Turing::Splice'', Sequence [Str ''x''])]])] ''k''
   \<and> for_each (\<lambda>v. []) (Elem [Mapping [(''Turing::ForEach'', Sequence [Sequence [Sequence [Str ''v'', Sequence [Str ''Turing::Splice'']]], Mapping [(''$v'', Sequence [Str ''q''])]])], Mapping [(''Turing::Splice'', Sequence [Str ''x''])]] 0)
       (Sequence [Sequence [Sequence [Str ''v'', Sequence [Str ''Turing::Splice'']]], Mapping [(''$v'', Sequence [Str ''q''])]]) =
     Some (Elem [Sequence [Mapping [(''Turing::Splice'', Sequence [Str ''q''])]], Mapping [(''Turing::Splice'', Sequence [Str ''x''])]] 0, None)
   \<and> process_fragment (functions_reg (\<lambda>v. [])) (Suc 6)
       (Elem [Mapping [(''Turing::ForEach'', Sequence [Sequence [Sequence [Str ''v'', Sequence [Str ''Turing::Splice'']]], Mapping [(''$v'', Sequence [Str ''q''])]])], Mapping [(''Turing::Splice'', Sequence [Str ''x''])]] 0)
       (Mapping [(''Turing::ForEach'', Sequence [Sequence [Sequence [Str ''v'', Sequence [Str ''Turing::Splice'']]], Mapping [(''$v'', Sequence [Str ''q''])]])]) =
     Some ((Elem [Sequence [Mapping [(''Turing::Splice'', Sequence [Str ''q''])]], Mapping [(''Turing::Splice'', Sequence [Str ''x''])]] 0,
            Mapping [(''Turing::ForEach'', Sequence [Sequence [Sequence [Str ''v'', Sequence [Str ''Turing::Splice'']]], Mapping [(''$v'', Sequence [Str ''q''])]])]), None)
   \<and> walk_list (process_fragment (functions_reg (\<lambda>v. [])) (Suc 6)) (Suc 2) 0
       [Mapping [(''Turing::ForEach'', Sequence [Sequence [Sequence [Str ''v'', Sequence [Str ''Turing::Splice'']]], Mapping [(''$v'', Sequence [Str ''q''])]])], Mapping [(''Turing::Splice'', Sequence [Str ''x''])]] =
     walk_list (process_fragment (functions_reg (\<lambda>v. [])) (Suc 6)) 2 (Suc 0)
       [Sequence [Mapping [(''Turing::Splice'', Sequence [Str ''q''])]], Mapping [(''Turing::Splice'', Sequence [Str ''x''])]]
   \<and> walk_list (process_fragment (functions_reg (\<lambda>v. [])) (Suc 6)) (Suc 2) 0
       [Mapping [(''Turing::ForEach'', Sequence [Sequence [Sequence [Str ''v'', Sequence [Str ''Turing::Splice'']]], Mapping [(''$v'', Sequence [Str ''q''])]])], Mapping [(''Turing::Splice'', Sequence [Str ''x''])]] =
     Some ([Sequence [Mapping [(''Turing::Splice'', Sequence [Str ''q''])]], Str ''x''], None)
   \<and> handler (functions_reg (\<lambda>v. [])) 9
       (Sequence [Mapping [(''Turing::ForEach'', Sequence [Sequence [Sequence [Str ''v'', Sequence [Str ''Turing::Splice'']]], Mapping [(''$v'', Sequence [Str ''q''])]])], Mapping [(''Turing::Splice'', Sequence [Str ''x''])]]) =
     Some (Sequence [Sequence [Mapping [(''Turing::Splice'', Sequence [Str ''q''])]], Str ''x''], ''success'')
   \<and> handler (functions_reg (\<lambda>v. [])) 9
       (Sequence [Mapping [(''Turing::ForEach'', Sequence [Sequence [Sequence [Str ''v'', Sequence [Str ''Turing::Splice'']]], Mapping [(''$v'', Sequence [Str ''q''])]])]]) =
     Some (Sequence [Sequence [Mapping [(''Turing::Splice'', Sequence [Str ''q''])]]], ''success'')
   \<and> walk_keys (process_fragment (functions_reg (\<lambda>v. [])) (Suc 6)) [''k'', ''j''] {}
       [(''k'', Mapping [(''Turing::ForEach'', Sequence [Sequence [Sequence [Str ''v'', Sequence [Str ''Turing::Splice'']]], Mapping [(''$v'', Sequence [Str ''q''])]])]), (''j'', Sequence [Mapping [(''Turing::Splice'', Sequence [Str ''x''])]])] False =
     Some (([(''k'', Sequence [Mapping [(''Turing::Splice'', Sequence [Str ''q''])]]), (''j'', Sequence [Str ''x''])], {''j'', ''k''}, True), None)
   \<and> resolve_passes (process_fragment (functions_reg (\<lambda>v. [])) (Suc 6)) MAX_RECURSION {}
       [(''k'', Mapping [(''Turing::ForEach'', Sequence [Sequence [Sequence [Str ''v'', Sequence [Str ''Turing::Splice'']]], Mapping [(''$v'', Sequence [Str ''q''])]])]), (''j'', Sequence [Mapping [(''Turing::Splice'', Sequence [Str ''x''])]])] =
     Some ([(''k'', Sequence [Mapping [(''Turing::Splice'', Sequence [Str ''q''])]]), (''j'', Sequence [Str ''x''])], None)
   \<and> map_of [(''k'', Sequence [Mapping [(''Turing::Splice'', Sequence [Str ''q''])]]), (''j'', Sequence [Str ''x''])] ''k'' =
     Some (Sequence [Mapping [(''Turing::Splice'', Sequence [Str ''q''])]])
   \<and> handler (functions_reg (\<lambda>v. [])) 9
       (Mapping [(''k'', Mapping [(''Turing::ForEach'', Sequence [Sequence [Sequence [Str ''v'', Sequence [Str ''Turing::Splice'']]], Mapping [(''$v'', Sequence [Str ''q''])]])]), (''j'', Sequence [Mapping [(''Turing::Splice'', Sequence [Str ''x''])]])]) =
     Some (Mapping [(''k'', Sequence [Mapping [(''Turing::Splice'', Sequence [Str ''q''])]]), (''j'', Sequence [Str ''x''])], ''success'')"
proof -
  let ?fns = "functions_reg (\<lambda>v. [])"
  let ?arg = "Sequence [Sequence [Sequence [Str ''v'', Sequence [Str ''Turing::Splice'']]], Mapping [(''$v'', Sequence [Str ''q''])]]"
  let ?fe = "Mapping [(''Turing::ForEach'', ?arg)]"
  let ?out = "Sequence [Mapping [(''Turing::Splice'', Sequence [Str ''q''])]]"
  let ?sx = "Mapping [(''Turing::Splice'', Sequence [Str ''x''])]"
  have p: "resolve_passes (process_fragment ?fns 6) MAX_RECURSION {} [(''Turing::ForEach'', ?arg)] =
      Some ([(''Turing::ForEach'', ?arg)], None)"
    by code_simp
  have s: "startswith ''Turing::ForEach'' ''Turing::''" by (simp add: startswith_def)
  have r: "?fns ''Turing::ForEach'' = Some (for_each (\<lambda>v. []))" by (simp add: functions_reg_def)
  have f: "for_each (\<lambda>v. []) (in_place (Entry [(''k'', ?fe)] ''k'') ?fe) ?arg =
      Some (Entry [(''k'', ?out)] ''k'', None)"
    by code_simp
  have w: "walk_list (process_fragment ?fns 3) 3 (Suc 0) [?out, ?sx] = Some ([?out, Str ''x''], None)"
    by code_simp
  have q: "resolve_passes (process_fragment ?fns 5) 2 {''k''} [(''k'', ?out), (''j'', Sequence [?sx])] =
      Some ([(''k'', ?out), (''j'', Sequence [Str ''x''])], None)"
    by code_simp
  have k: "''k'' \<in> {''k''}" by simp
  have h: "handler ?fns 8 (Mapping [(''k'', ?fe)]) = Some (Mapping [(''k'', ?out)], ''success'')"
    by code_simp
  from handler_output_stays [where fns = ?fns and fuel = 6 and kvs = "[(''Turing::ForEach'', ?arg)]"
      and k = "''Turing::ForEach''" and v = ?arg and f = "for_each (\<lambda>v. [])"
      and parent = "Entry [(''k'', ?fe)] ''k''", THEN conjunct1] p s r f
  have 1: "process_fragment ?fns (Suc 6) (Entry [(''k'', ?fe)] ''k'') ?fe =
     Some ((Entry [(''k'', ?out)] ''k'', ?fe), None)"
    by simp
  from handler_output_stays [where cr = "\<lambda>v. []" and n = 3 and steps = 3 and i = 0
      and xs = "[?out, ?sx]" and ys = "[?out, Str ''x'']" and e = None, THEN conjunct2, THEN conjunct1] w
  have 2: "take (Suc 0) [?out, Str ''x''] = take (Suc 0) [?out, ?sx]"
    by blast
  from handler_output_stays [where cr = "\<lambda>v. []" and n = 5 and r = 2 and seen = "{''k''}"
      and d = "[(''k'', ?out), (''j'', Sequence [?sx])]"
      and d' = "[(''k'', ?out), (''j'', Sequence [Str ''x''])]" and e' = None and key = "''k''", THEN conjunct2, THEN conjunct2, THEN conjunct1] q k
  have 3: "map_of [(''k'', ?out), (''j'', Sequence [Str ''x''])] ''k'' =
      map_of [(''k'', ?out), (''j'', Sequence [?sx])] ''k''"
    by blast
  have li: "(0::nat) < length [?fe, ?sx]" by simp
  have lx: "[?fe, ?sx] ! 0 = Mapping [(''Turing::ForEach'', ?arg)]" by simp
  have lf0: "for_each (\<lambda>v. []) (Elem [?fe, ?sx] 0) ?arg = Some (Elem [?out, ?sx] 0, None)"
    by code_simp
  then have lf: "for_each (\<lambda>v. []) (Elem ([?fe, ?sx][0 := Mapping [(''Turing::ForEach'', ?arg)]]) 0) ?arg =
      Some (Elem [?out, ?sx] 0, None)"
    by (simp only: list_update_code)
  have lw: "walk_list (process_fragment ?fns (Suc 6)) (Suc 2) 0 [?fe, ?sx] = Some ([?out, Str ''x''], None)"
    by code_simp
  note L = handler_output_stays [where cr = "\<lambda>v. []" and m = 6 and idx = 0 and items = "[?fe, ?sx]"
      and call = "[(''Turing::ForEach'', ?arg)]" and name = "''Turing::ForEach''" and arg = ?arg
      and fn = "for_each (\<lambda>v. [])" and items' = "[?out, ?sx]" and todo = 2
      and final = "[?out, Str ''x'']" and err = None, THEN conjunct2, THEN conjunct2, THEN conjunct2, THEN conjunct1, THEN mp, OF conjI [OF li conjI [OF lx conjI [OF p conjI [OF s conjI [OF r lf]]]]]]
  from L have 4: "process_fragment ?fns (Suc 6) (Elem [?fe, ?sx] 0) ?fe =
      Some ((Elem [?out, ?sx] 0, ?fe), None)"
    by (simp only: lx)
  from L have 5: "walk_list (process_fragment ?fns (Suc 6)) (Suc 2) 0 [?fe, ?sx] =
      walk_list (process_fragment ?fns (Suc 6)) 2 (Suc 0) [?out, ?sx]"
    by blast
  have h2: "handler ?fns 9 (Sequence [?fe, ?sx]) = Some (Sequence [?out, Str ''x''], ''success'')"
    by code_simp
  have h3: "handler ?fns 9 (Sequence [?fe]) = Some (Sequence [?out], ''success'')"
    by code_simp
  have mk: "''k'' \<notin> {}" by simp
  have mm: "map_of [(''k'', ?fe), (''j'', Sequence [?sx])] ''k'' = Some (Mapping [(''Turing::ForEach'', ?arg)])"
    by simp
  have mf: "for_each (\<lambda>v. []) (in_place (Entry [(''k'', ?fe), (''j'', Sequence [?sx])] ''k'')
        (Mapping [(''Turing::ForEach'', ?arg)])) ?arg =
      Some (Entry [(''k'', ?out), (''j'', Sequence [?sx])] ''k'', None)"
    by code_simp
  have mw: "walk_keys (process_fragment ?fns (Suc 6)) [''k'', ''j''] {}
       [(''k'', ?fe), (''j'', Sequence [?sx])] False =
     Some (([(''k'', ?out), (''j'', Sequence [Str ''x''])], {''j'', ''k''}, True), None)"
    by code_simp
  have mr: "resolve_passes (process_fragment ?fns (Suc 6)) 15 {''j'', ''k''}
       [(''k'', ?out), (''j'', Sequence [Str ''x''])] =
     Some ([(''k'', ?out), (''j'', Sequence [Str ''x''])], None)"
    by code_simp
  have mt: "resolve_passes (process_fragment ?fns (Suc 6)) MAX_RECURSION {}
       [(''k'', ?fe), (''j'', Sequence [?sx])] =
     Some ([(''k'', ?out), (''j'', Sequence [Str ''x''])], None)"
    by code_simp
  note M = handler_output_stays [where cr = "\<lambda>v. []" and m = 6 and slot_key = "''k''"
      and visited = "{}" and entries = "[(''k'', ?fe), (''j'', Sequence [?sx])]"
      and call = "[(''Turing::ForEach'', ?arg)]" and name = "''Turing::ForEach''" and arg = ?arg
      and fn = "for_each (\<lambda>v. [])" and ?entries1.0 = "[(''k'', ?out), (''j'', Sequence [?sx])]"
      and rest = "[''j'']" and new = False
      and ?entries2.0 = "[(''k'', ?out), (''j'', Sequence [Str ''x''])]" and ?visited2.0 = "{''j'', ''k''}"
      and ?new2.0 = True and ?err2.0 = None and passes = 15
      and entries' = "[(''k'', ?out), (''j'', Sequence [Str ''x''])]" and err' = None, THEN conjunct2, THEN conjunct2, THEN conjunct2, THEN conjunct2, THEN mp, OF conjI [OF mk conjI [OF mm conjI [OF p conjI [OF s conjI [OF r mf]]]]]]
  from M mw mr have "map_of [(''k'', ?out), (''j'', Sequence [Str ''x''])] ''k'' =
      map_of [(''k'', ?out), (''j'', Sequence [?sx])] ''k''"
    by blast
  then have 6: "map_of [(''k'', ?out), (''j'', Sequence [Str ''x''])] ''k'' = Some ?out"
    by simp
  have h4: "handler ?fns 9 (Mapping [(''k'', ?fe), (''j'', Sequence [?sx])]) =
     Some (Mapping [(''k'', ?out), (''j'', Sequence [Str ''x''])], ''success'')"
    by code_simp
  from 1 h w 2 q 3 lf0 4 5 lw h2 h3 mw mt 6 h4 show ?thesis by (intro conjI)
qed

text \<open>
  C3, as stated, fails: the output of a \<^verbatim>\<open>Turing::ForEach\<close> call holds the mapping
  \<^verbatim>\<open>{"Turing::Splice": ["q"]}\<close>; the call is the second element of the argument of
  an enclosing \<^verbatim>\<open>Turing::Splice\<close>, so its output is inserted at index 1 of the outer
  list, where the walk resolves it: the final document holds \<^verbatim>\<open>["q"]\<close> in place of
  the mapping.
\<close>

theorem handler_output_expanded_counterexample:
  "for_each (\<lambda>v. []) (Elem [Str ''a'', Mapping [(''Turing::ForEach'', Sequence [Sequence [Sequence [Str ''v'', Sequence [Str ''Turing::Splice'']]], Mapping [(''$v'', Sequence [Str ''q''])]])]] 1)
     (Sequence [Sequence [Sequence [Str ''v'', Sequence [Str ''Turing::Splice'']]], Mapping [(''$v'', Sequence [Str ''q''])]]) =
     Some (Elem [Str ''a'', Sequence [Mapping [(''Turing::Splice'', Sequence [Str ''q''])]]] 1, None)
   \<and> handler (functions_reg (\<lambda>v. [])) 9
       (Sequence [Mapping [(''Turing::Splice'', Sequence [Str ''a'', Mapping [(''Turing::ForEach'', Sequence [Sequence [Sequence [Str ''v'', Sequence [Str ''Turing::Splice'']]], Mapping [(''$v'', Sequence [Str ''q''])]])]])]]) =
     Some (Sequence [Str ''a'', Sequence [Str ''q'']], ''success'')
   \<and> handler (functions_reg (\<lambda>v. [])) 9
       (Sequence [Mapping [(''Turing::Splice'', Sequence [Str ''a'', Mapping [(''Turing::ForEach'', Sequence [Sequence [Sequence [Str ''v'', Sequence [Str ''Turing::Splice'']]], Mapping [(''$v'', Sequence [Str ''q''])]])]])]]) \<noteq>
     Some (Sequence [Str ''a'', Sequence [Mapping [(''Turing::Splice'', Sequence [Str ''q''])]]], ''success'')"
  by code_simp

end
